theory Spec2Isabelle
  imports Main "HOL-Library.Word"
begin

unbundle bit_operations_syntax

section \<open>Field elements, errors and JavaScript numbers\<close>

text \<open>
  A gadget is run the way the prover runs it: every variable carries the value the
  prover assigned to it, and a constraint that these values do not satisfy stops the
  run.  A field element is either a constant of the circuit or a variable; both carry
  a bigint value.  The modulus of the native field lives in the bindings, outside the
  gadget files, so every operation takes it as the parameter \<open>p\<close>.
\<close>

datatype Field = Constant int | Var int

datatype error =
    AssertionError string
  | ConstraintUnsatisfied
  | TypeError
  | NotBoolean
  | NotFalse
  | GateUnsatisfied

fun isConstant :: "Field \<Rightarrow> bool" where
  "isConstant (Constant v) = True"
| "isConstant (Var v) = False"

fun toBigInt :: "Field \<Rightarrow> int" where
  "toBigInt (Constant v) = v"
| "toBigInt (Var v) = v"

definition andThen :: "error + 'a \<Rightarrow> ('a \<Rightarrow> error + 'b) \<Rightarrow> error + 'b" where
  "andThen m f = (case m of Inl e \<Rightarrow> Inl e | Inr v \<Rightarrow> f v)"

text \<open>\<open>assert(cond, message)\<close> of the gadgets' common module: throws while the circuit is built.\<close>

definition assert :: "bool \<Rightarrow> string \<Rightarrow> error + unit" where
  "assert c msg = (if c then Inr () else Inl (AssertionError msg))"

text \<open>
  The JavaScript operator \<open>a << b\<close> on numbers: both operands are taken as 32-bit
  integers, the shift count is \<open>b\<close> modulo 32, and the result is read back as a signed
  32-bit integer.
\<close>

definition js_shl :: "int \<Rightarrow> int \<Rightarrow> int" where
  "js_shl a b = sint (push_bit (nat (b mod 32)) (word_of_int a :: 32 word))"

text \<open>
  Modelled from the spec: the field element type of the constraint-system engine
  (field.js is not among the gadget files), with the operations the spec lists:
  add, multiply, scale by a constant, assert-equal and range-check to 16 bits.  A
  value built from a number or bigint is reduced into \<open>[0, p)\<close>; a result is a
  constant exactly when all operands are.
\<close>

definition createField :: "int \<Rightarrow> int \<Rightarrow> Field" where
  "createField p v = Constant (v mod p)"

definition mkField :: "bool \<Rightarrow> int \<Rightarrow> Field" where
  "mkField c v = (if c then Constant v else Var v)"

definition Field_add :: "int \<Rightarrow> Field \<Rightarrow> Field \<Rightarrow> Field" where
  "Field_add p x y = mkField (isConstant x \<and> isConstant y) ((toBigInt x + toBigInt y) mod p)"

definition Field_mul :: "int \<Rightarrow> Field \<Rightarrow> Field \<Rightarrow> Field" where
  "Field_mul p x y = mkField (isConstant x \<and> isConstant y) ((toBigInt x * toBigInt y) mod p)"

definition Field_mul_number :: "int \<Rightarrow> Field \<Rightarrow> int \<Rightarrow> Field" where
  "Field_mul_number p x k = Field_mul p x (createField p k)"

definition seal :: "Field \<Rightarrow> Field" where
  "seal x = x"

definition assertEquals :: "Field \<Rightarrow> Field \<Rightarrow> error + unit" where
  "assertEquals x y =
     (if toBigInt x = toBigInt y then Inr ()
      else if isConstant x \<and> isConstant y then Inl (AssertionError ''Field.assertEquals()'')
      else Inl ConstraintUnsatisfied)"

definition rangeCheckHelper :: "nat \<Rightarrow> Field \<Rightarrow> Field" where
  "rangeCheckHelper n x = mkField (isConstant x) (take_bit n (toBigInt x))"

section \<open>The SHA-256 gadget: range checks of small widths\<close>

definition rangeCheckNSmall :: "int \<Rightarrow> Field \<Rightarrow> int \<Rightarrow> error + unit" where
  "rangeCheckNSmall p x n =
     andThen (assert (n \<le> 16) ''expected n <= 16'') (\<lambda>_.
     andThen (assertEquals (rangeCheckHelper 16 x) x) (\<lambda>_.
       if n = 16 then Inr ()
       else
         let xScaled = seal (Field_mul_number p x (js_shl 1 (16 - n)))
         in assertEquals (rangeCheckHelper 16 xScaled) xScaled))"

definition bigint_shl :: "int \<Rightarrow> int \<Rightarrow> int" where
  "bigint_shl a n = (if 0 \<le> n then push_bit (nat n) a else drop_bit (nat (- n)) a)"

definition bigint_shr :: "int \<Rightarrow> int \<Rightarrow> int" where
  "bigint_shr a n = (if 0 \<le> n then drop_bit (nat n) a else push_bit (nat (- n)) a)"

text \<open>
  Modelled from the spec: \<open>bitSlice(x, start, length)\<close> of the gadgets' common module,
  the chunk of \<open>length\<close> bits of \<open>x\<close> that starts at bit \<open>start\<close>, computed on
  bigints as a shift and a mask.
\<close>

definition bitSlice :: "int \<Rightarrow> int \<Rightarrow> int \<Rightarrow> int" where
  "bitSlice x start len = (bigint_shr x start) AND (bigint_shl 1 len - 1)"

section \<open>32-bit words\<close>

text \<open>
  Modelled from the spec: the word type \<open>UInt32\<close> (int.js is not among the gadget
  files): an unsigned 32-bit quantity backed by a field element, with bitwise and, xor
  and not, rotation, right shift, and addition modulo \<open>2^32\<close> through the
  remainder of \<open>divMod32\<close>.  An operation on a value outside \<open>[0, 2^32)\<close> fails: at
  once for a constant, as an unsatisfied constraint for a variable.
\<close>

datatype UInt32 = UInt32 (val: Field)

definition fits :: "nat \<Rightarrow> Field \<Rightarrow> error + unit" where
  "fits n x =
     (if 0 \<le> toBigInt x \<and> toBigInt x < 2 ^ n then Inr ()
      else if isConstant x then Inl (AssertionError ''does not fit into the bits'')
      else Inl ConstraintUnsatisfied)"

definition UInt32_from :: "Field \<Rightarrow> error + UInt32" where
  "UInt32_from x = (if isConstant x then andThen (fits 32 x) (\<lambda>_. Inr (UInt32 x)) else Inr (UInt32 x))"

definition divMod32 :: "Field \<Rightarrow> error + (Field \<times> Field)" where
  "divMod32 n =
     andThen (fits 64 n) (\<lambda>_.
       Inr (mkField (isConstant n) (drop_bit 32 (toBigInt n)),
            mkField (isConstant n) (take_bit 32 (toBigInt n))))"

definition remainder :: "Field \<times> Field \<Rightarrow> Field" where
  "remainder qr = snd qr"

definition UInt32_addMod32 :: "int \<Rightarrow> UInt32 \<Rightarrow> UInt32 \<Rightarrow> error + UInt32" where
  "UInt32_addMod32 p x y =
     andThen (divMod32 (Field_add p (val x) (val y))) (\<lambda>qr. UInt32_from (remainder qr))"

definition binop32 :: "(32 word \<Rightarrow> 32 word \<Rightarrow> 32 word) \<Rightarrow> UInt32 \<Rightarrow> UInt32 \<Rightarrow> error + UInt32" where
  "binop32 f x y =
     andThen (fits 32 (val x)) (\<lambda>_.
     andThen (fits 32 (val y)) (\<lambda>_.
       Inr (UInt32 (mkField (isConstant (val x) \<and> isConstant (val y))
              (uint (f (word_of_int (toBigInt (val x))) (word_of_int (toBigInt (val y)))))))))"

definition unop32 :: "(32 word \<Rightarrow> 32 word) \<Rightarrow> UInt32 \<Rightarrow> error + UInt32" where
  "unop32 f x =
     andThen (fits 32 (val x)) (\<lambda>_.
       Inr (UInt32 (mkField (isConstant (val x)) (uint (f (word_of_int (toBigInt (val x))))))))"

definition UInt32_and :: "UInt32 \<Rightarrow> UInt32 \<Rightarrow> error + UInt32" where
  "UInt32_and = binop32 (\<lambda>a b. a AND b)"

definition UInt32_xor :: "UInt32 \<Rightarrow> UInt32 \<Rightarrow> error + UInt32" where
  "UInt32_xor = binop32 (\<lambda>a b. a XOR b)"

definition UInt32_not :: "UInt32 \<Rightarrow> error + UInt32" where
  "UInt32_not = unop32 (\<lambda>a. NOT a)"

definition UInt32_rotate_right :: "int \<Rightarrow> UInt32 \<Rightarrow> error + UInt32" where
  "UInt32_rotate_right n x =
     andThen (assert (0 \<le> n \<and> n \<le> 32) ''rotation: expected bits to be between 0 and 32'') (\<lambda>_.
       unop32 (word_rotr (nat n)) x)"

definition UInt32_rightShift :: "int \<Rightarrow> UInt32 \<Rightarrow> error + UInt32" where
  "UInt32_rightShift n x =
     andThen (assert (0 \<le> n \<and> n \<le> 32) ''shift: expected bits to be between 0 and 32'') (\<lambda>_.
       unop32 (drop_bit (nat n)) x)"

section \<open>The SHA-256 gadget: rotations\<close>

definition ROTR :: "int \<Rightarrow> UInt32 \<Rightarrow> error + UInt32" where
  "ROTR n x = UInt32_rotate_right n x"

definition SHR :: "int \<Rightarrow> UInt32 \<Rightarrow> error + UInt32" where
  "SHR n x = UInt32_rightShift n x"

definition ROTR3Simple :: "UInt32 \<Rightarrow> int \<times> int \<times> int \<Rightarrow> error + (UInt32 \<times> UInt32 \<times> UInt32)" where
  "ROTR3Simple u bits =
     (case bits of (r0, r1, r2) \<Rightarrow>
        andThen (ROTR r0 u) (\<lambda>a.
        andThen (ROTR r1 u) (\<lambda>b.
        andThen (ROTR r2 u) (\<lambda>c. Inr (a, b, c)))))"

text \<open>The values the prover computes for the four chunks (the callback of \<open>exists\<close>).\<close>

definition ROTR3_chunks :: "int \<Rightarrow> int \<times> int \<times> int \<Rightarrow> int \<times> int \<times> int \<times> int" where
  "ROTR3_chunks xx bits =
     (case bits of (r0, r1, r2) \<Rightarrow>
        let d0 = r0; d1 = r1 - r0; d2 = r2 - r1; d3 = 32 - r2
        in (bitSlice xx 0 d0, bitSlice xx r0 d1, bitSlice xx r1 d2, bitSlice xx r2 d3))"

text \<open>The range checks of the four chunks.\<close>

definition ROTR3_rangeChecks ::
  "int \<Rightarrow> int \<times> int \<times> int \<Rightarrow> Field \<times> Field \<times> Field \<times> Field \<Rightarrow> error + unit" where
  "ROTR3_rangeChecks p bits chunks =
     (case bits of (r0, r1, r2) \<Rightarrow> case chunks of (x0, x1, x2, x3) \<Rightarrow>
        let d0 = r0; d1 = r1 - r0; d2 = r2 - r1; d3 = 32 - r2
        in andThen (rangeCheckNSmall p x0 d0) (\<lambda>_.
           andThen (rangeCheckNSmall p x1 d1) (\<lambda>_.
           andThen (rangeCheckNSmall p x2 d2) (\<lambda>_.
           andThen (assert (d3 \<le> 16) ''expected d3 <= 16'') (\<lambda>_.
             rangeCheckNSmall p x3 16)))))"

text \<open>
  Everything after \<open>exists\<close>: the range checks, the proof of the decomposition and the
  three reassembled words, for any values the prover assigned to the chunks.
\<close>

definition ROTR3_constrain ::
  "int \<Rightarrow> Field \<Rightarrow> int \<times> int \<times> int \<Rightarrow> Field \<times> Field \<times> Field \<times> Field
     \<Rightarrow> error + (UInt32 \<times> UInt32 \<times> UInt32)" where
  "ROTR3_constrain p x bits chunks =
     (case bits of (r0, r1, r2) \<Rightarrow> case chunks of (x0, x1, x2, x3) \<Rightarrow>
        let d0 = r0; d1 = r1 - r0; d2 = r2 - r1; d3 = 32 - r2
        in andThen (ROTR3_rangeChecks p bits chunks) (\<lambda>_.
           let x23 = seal (Field_add p x2 (Field_mul_number p x3 (js_shl 1 d2)));
               x123 = seal (Field_add p x1 (Field_mul_number p x23 (js_shl 1 d1)))
           in andThen (assertEquals (Field_add p x0 (Field_mul_number p x123 (js_shl 1 d0))) x) (\<lambda>_.
           let xRotR0 = seal (Field_add p x123 (Field_mul_number p x0 (js_shl 1 (d1 + d2 + d3))));
               x01 = seal (Field_add p x0 (Field_mul_number p x1 (js_shl 1 d0)));
               xRotR1 = seal (Field_add p x23 (Field_mul_number p x01 (js_shl 1 (d2 + d3))));
               x012 = seal (Field_add p x01 (Field_mul_number p x2 (js_shl 1 (d0 + d1))));
               xRotR2 = seal (Field_add p x3 (Field_mul_number p x012 (js_shl 1 d3)))
           in andThen (UInt32_from xRotR0) (\<lambda>a.
              andThen (UInt32_from xRotR1) (\<lambda>b.
              andThen (UInt32_from xRotR2) (\<lambda>c. Inr (a, b, c)))))))"

definition ROTR3 :: "int \<Rightarrow> UInt32 \<Rightarrow> int \<times> int \<times> int \<Rightarrow> error + (UInt32 \<times> UInt32 \<times> UInt32)" where
  "ROTR3 p u bits =
     (if isConstant (val u) then ROTR3Simple u bits
      else
        let x = val u
        in case ROTR3_chunks (toBigInt x) bits of (c0, c1, c2, c3) \<Rightarrow>
             ROTR3_constrain p x bits (Var c0, Var c1, Var c2, Var c3))"

section \<open>The SHA-256 gadget: word functions\<close>

definition Ch :: "UInt32 \<Rightarrow> UInt32 \<Rightarrow> UInt32 \<Rightarrow> error + UInt32" where
  "Ch x y z =
     andThen (UInt32_and x y) (\<lambda>xAndY.
     andThen (UInt32_not x) (\<lambda>xNot.
     andThen (UInt32_and xNot z) (\<lambda>xNotAndZ.
       UInt32_xor xAndY xNotAndZ)))"

definition Maj :: "UInt32 \<Rightarrow> UInt32 \<Rightarrow> UInt32 \<Rightarrow> error + UInt32" where
  "Maj x y z =
     andThen (UInt32_and x y) (\<lambda>xAndY.
     andThen (UInt32_and x z) (\<lambda>xAndZ.
     andThen (UInt32_and y z) (\<lambda>yAndZ.
     andThen (UInt32_xor xAndY xAndZ) (\<lambda>t. UInt32_xor t yAndZ))))"

definition SigmaZero :: "int \<Rightarrow> UInt32 \<Rightarrow> error + UInt32" where
  "SigmaZero p x =
     andThen (ROTR3 p x (2, 13, 22)) (\<lambda>(rotr2, rotr13, rotr22).
     andThen (UInt32_xor rotr2 rotr13) (\<lambda>t. UInt32_xor t rotr22))"

definition SigmaOne :: "int \<Rightarrow> UInt32 \<Rightarrow> error + UInt32" where
  "SigmaOne p x =
     andThen (ROTR3 p x (6, 11, 25)) (\<lambda>(rotr6, rotr11, rotr25).
     andThen (UInt32_xor rotr6 rotr11) (\<lambda>t. UInt32_xor t rotr25))"

definition DeltaZero :: "UInt32 \<Rightarrow> error + UInt32" where
  "DeltaZero x =
     andThen (ROTR 7 x) (\<lambda>rotr7.
     andThen (ROTR 18 x) (\<lambda>rotr18.
     andThen (SHR 3 x) (\<lambda>shr3.
     andThen (UInt32_xor rotr7 rotr18) (\<lambda>t. UInt32_xor t shr3))))"

definition DeltaOne :: "UInt32 \<Rightarrow> error + UInt32" where
  "DeltaOne x =
     andThen (ROTR 17 x) (\<lambda>rotr17.
     andThen (ROTR 19 x) (\<lambda>rotr19.
     andThen (SHR 10 x) (\<lambda>shr10.
     andThen (UInt32_xor rotr17 rotr19) (\<lambda>t. UInt32_xor t shr10))))"

section \<open>The SHA-256 gadget: the hash\<close>

text \<open>
  The round constants and the initial hash value, the numbers of the source; the 64 round
  constants, hexadecimal in the source, are written in decimal (the first is \<open>0x428a2f98\<close> and
  the last \<open>0xc67178f2\<close>).
\<close>

definition K_numbers :: "int list" where
  "K_numbers =
     [1116352408, 1899447441, 3049323471, 3921009573, 961987163, 1508970993,
      2453635748, 2870763221, 3624381080, 310598401, 607225278, 1426881987,
      1925078388, 2162078206, 2614888103, 3248222580, 3835390401, 4022224774,
      264347078, 604807628, 770255983, 1249150122, 1555081692, 1996064986,
      2554220882, 2821834349, 2952996808, 3210313671, 3336571891, 3584528711,
      113926993, 338241895, 666307205, 773529912, 1294757372, 1396182291,
      1695183700, 1986661051, 2177026350, 2456956037, 2730485921, 2820302411,
      3259730800, 3345764771, 3516065817, 3600352804, 4094571909, 275423344,
      430227734, 506948616, 659060556, 883997877, 958139571, 1322822218,
      1537002063, 1747873779, 1955562222, 2024104815, 2227730452, 2361852424,
      2428436474, 2756734187, 3204031479, 3329325298]"

definition H_numbers :: "int list" where
  "H_numbers =
     [0x6a09e667, 0xbb67ae85, 0x3c6ef372, 0xa54ff53a, 0x510e527f, 0x9b05688c,
      0x1f83d9ab, 0x5be0cd19]"

text \<open>\<open>UInt32.from\<close> of a number literal below \<open>2^32\<close> is the constant word of that value.\<close>

definition K :: "UInt32 list" where
  "K = map (\<lambda>k. UInt32 (Constant k)) K_numbers"

definition H_initial :: "UInt32 list" where
  "H_initial = map (\<lambda>h. UInt32 (Constant h)) H_numbers"

text \<open>
  A loop over the indices \<open>ts\<close> whose body can fail.  An array with holes is a list of
  options: reading a hole gives \<open>undefined\<close>, and the first use of its \<open>value\<close> is a
  type error; writing at or beyond the length extends the array.
\<close>

fun forEachM :: "nat list \<Rightarrow> (nat \<Rightarrow> 's \<Rightarrow> error + 's) \<Rightarrow> 's \<Rightarrow> error + 's" where
  "forEachM [] f s = Inr s"
| "forEachM (t # ts) f s = andThen (f t s) (forEachM ts f)"

definition js_get :: "'a option list \<Rightarrow> nat \<Rightarrow> error + 'a" where
  "js_get W i =
     (if i < length W then (case W ! i of Some w \<Rightarrow> Inr w | None \<Rightarrow> Inl TypeError)
      else Inl TypeError)"

definition js_set :: "'a option list \<Rightarrow> nat \<Rightarrow> 'a \<Rightarrow> 'a option list" where
  "js_set W i w =
     (if i < length W then W[i := Some w]
      else W @ replicate (i - length W) None @ [Some w])"

text \<open>The first loop of a block: \<open>W[t] = M[t]\<close> for \<open>t\<close> from 0 to 15.\<close>

definition copyBlock :: "UInt32 list \<Rightarrow> UInt32 option list" where
  "copyBlock M = map (\<lambda>t. if t < length M then Some (M ! t) else None) [0..<16]"

text \<open>The body of the second loop: the schedule word \<open>W[t]\<close> for \<open>t\<close> from 16 to 63.\<close>

definition scheduleStep :: "int \<Rightarrow> nat \<Rightarrow> UInt32 option list \<Rightarrow> error + UInt32 option list" where
  "scheduleStep p t W =
     andThen (js_get W (t - 2)) (\<lambda>w2.
     andThen (DeltaOne w2) (\<lambda>d1.
     andThen (js_get W (t - 7)) (\<lambda>w7.
     andThen (js_get W (t - 15)) (\<lambda>w15.
     andThen (DeltaZero w15) (\<lambda>d0.
     andThen (js_get W (t - 16)) (\<lambda>w16.
       let unreduced = Field_add p (Field_add p (val d1) (val w7))
                                   (Field_add p (val d0) (val w16))
       in andThen (divMod32 unreduced) (\<lambda>qr.
          andThen (UInt32_from (remainder qr)) (\<lambda>w.
            Inr (js_set W t w)))))))))"

definition messageSchedule :: "int \<Rightarrow> UInt32 list \<Rightarrow> error + UInt32 option list" where
  "messageSchedule p M = forEachM [16..<64] (scheduleStep p) (copyBlock M)"

type_synonym working = "UInt32 \<times> UInt32 \<times> UInt32 \<times> UInt32 \<times> UInt32 \<times> UInt32 \<times> UInt32 \<times> UInt32"

text \<open>The body of the main loop.\<close>

definition roundStep :: "int \<Rightarrow> UInt32 option list \<Rightarrow> nat \<Rightarrow> working \<Rightarrow> error + working" where
  "roundStep p W t s =
     (case s of (a, b, c, d, e, f, g, h) \<Rightarrow>
        andThen (SigmaOne p e) (\<lambda>s1.
        andThen (Ch e f g) (\<lambda>ch.
        andThen (js_get W t) (\<lambda>wt.
          let unreducedT1 =
                Field_add p (Field_add p (Field_add p (Field_add p (val h) (val s1)) (val ch))
                  (val (K ! t))) (val wt)
          in andThen (SigmaZero p a) (\<lambda>s0.
             andThen (Maj a b c) (\<lambda>maj.
               let unreducedT2 = Field_add p (val s0) (val maj)
               in andThen (divMod32 (Field_add p (val d) unreducedT1)) (\<lambda>qr1.
                  andThen (UInt32_from (remainder qr1)) (\<lambda>e'.
                  andThen (divMod32 (Field_add p unreducedT2 unreducedT1)) (\<lambda>qr2.
                  andThen (UInt32_from (remainder qr2)) (\<lambda>a'.
                    Inr (a', a, b, c, e', e, f, g)))))))))))"

text \<open>One iteration of the loop over the message blocks.\<close>

definition processBlock :: "int \<Rightarrow> UInt32 list \<Rightarrow> UInt32 list \<Rightarrow> error + UInt32 list" where
  "processBlock p H M =
     andThen (messageSchedule p M) (\<lambda>W.
     andThen (forEachM [0..<64] (roundStep p W)
                (H ! 0, H ! 1, H ! 2, H ! 3, H ! 4, H ! 5, H ! 6, H ! 7)) (\<lambda>s.
       case s of (a, b, c, d, e, f, g, h) \<Rightarrow>
         andThen (UInt32_addMod32 p (H ! 0) a) (\<lambda>h0.
         andThen (UInt32_addMod32 p (H ! 1) b) (\<lambda>h1.
         andThen (UInt32_addMod32 p (H ! 2) c) (\<lambda>h2.
         andThen (UInt32_addMod32 p (H ! 3) d) (\<lambda>h3.
         andThen (UInt32_addMod32 p (H ! 4) e) (\<lambda>h4.
         andThen (UInt32_addMod32 p (H ! 5) f) (\<lambda>h5.
         andThen (UInt32_addMod32 p (H ! 6) g) (\<lambda>h6.
         andThen (UInt32_addMod32 p (H ! 7) h) (\<lambda>h7.
           Inr [h0, h1, h2, h3, h4, h5, h6, h7]))))))))))"

fun hashBlocks :: "int \<Rightarrow> UInt32 list \<Rightarrow> UInt32 list list \<Rightarrow> error + UInt32 list" where
  "hashBlocks p H [] = Inr H"
| "hashBlocks p H (M # Ms) = andThen (processBlock p H M) (\<lambda>H'. hashBlocks p H' Ms)"

definition SHA256_hash :: "int \<Rightarrow> UInt32 list list \<Rightarrow> error + UInt32 list" where
  "SHA256_hash p data = hashBlocks p H_initial data"

section \<open>The reference: SHA-256 of FIPS 180-4 on 32-bit words\<close>

text \<open>
  The standard's functions on machine words (sections 4.1.2, 4.2.2, 5.3.3, 6.2.2), applied
  to a sequence of blocks that are already padded and parsed.
\<close>

definition ref_Ch :: "32 word \<Rightarrow> 32 word \<Rightarrow> 32 word \<Rightarrow> 32 word" where
  "ref_Ch x y z = (x AND y) XOR (NOT x AND z)"

definition ref_Maj :: "32 word \<Rightarrow> 32 word \<Rightarrow> 32 word \<Rightarrow> 32 word" where
  "ref_Maj x y z = (x AND y) XOR (x AND z) XOR (y AND z)"

definition ref_Sigma0 :: "32 word \<Rightarrow> 32 word" where
  "ref_Sigma0 x = word_rotr 2 x XOR word_rotr 13 x XOR word_rotr 22 x"

definition ref_Sigma1 :: "32 word \<Rightarrow> 32 word" where
  "ref_Sigma1 x = word_rotr 6 x XOR word_rotr 11 x XOR word_rotr 25 x"

definition ref_sigma0 :: "32 word \<Rightarrow> 32 word" where
  "ref_sigma0 x = word_rotr 7 x XOR word_rotr 18 x XOR drop_bit 3 x"

definition ref_sigma1 :: "32 word \<Rightarrow> 32 word" where
  "ref_sigma1 x = word_rotr 17 x XOR word_rotr 19 x XOR drop_bit 10 x"

definition ref_K :: "32 word list" where
  "ref_K = map word_of_int K_numbers"

definition ref_H0 :: "32 word list" where
  "ref_H0 = map word_of_int H_numbers"

definition ref_scheduleStep :: "nat \<Rightarrow> 32 word list \<Rightarrow> 32 word list" where
  "ref_scheduleStep t W =
     W @ [ref_sigma1 (W ! (t - 2)) + W ! (t - 7) + ref_sigma0 (W ! (t - 15)) + W ! (t - 16)]"

definition ref_schedule :: "32 word list \<Rightarrow> 32 word list" where
  "ref_schedule M = fold ref_scheduleStep [16..<64] (take 16 M)"

type_synonym ref_working =
  "32 word \<times> 32 word \<times> 32 word \<times> 32 word \<times> 32 word \<times> 32 word \<times> 32 word \<times> 32 word"

definition ref_round :: "32 word list \<Rightarrow> nat \<Rightarrow> ref_working \<Rightarrow> ref_working" where
  "ref_round W t s =
     (case s of (a, b, c, d, e, f, g, h) \<Rightarrow>
        let T1 = h + ref_Sigma1 e + ref_Ch e f g + ref_K ! t + W ! t;
            T2 = ref_Sigma0 a + ref_Maj a b c
        in (T1 + T2, a, b, c, d + T1, e, f, g))"

definition ref_compress :: "32 word list \<Rightarrow> 32 word list \<Rightarrow> 32 word list" where
  "ref_compress H M =
     (case fold (ref_round (ref_schedule M)) [0..<64]
             (H ! 0, H ! 1, H ! 2, H ! 3, H ! 4, H ! 5, H ! 6, H ! 7) of
        (a, b, c, d, e, f, g, h) \<Rightarrow>
          [H ! 0 + a, H ! 1 + b, H ! 2 + c, H ! 3 + d, H ! 4 + e, H ! 5 + f, H ! 6 + g, H ! 7 + h])"

definition ref_SHA256 :: "32 word list list \<Rightarrow> 32 word list" where
  "ref_SHA256 blocks = foldl ref_compress ref_H0 blocks"

text \<open>What a word of the gadget stands for, and when it is a 32-bit quantity.\<close>

definition w32 :: "UInt32 \<Rightarrow> 32 word" where
  "w32 u = word_of_int (toBigInt (val u))"

definition wf32 :: "UInt32 \<Rightarrow> bool" where
  "wf32 u \<longleftrightarrow> 0 \<le> toBigInt (val u) \<and> toBigInt (val u) < 2 ^ 32"

text \<open>
  The modulus of the native field in the bindings (the base field of the Pallas curve),
  used where a run is evaluated on concrete values.
\<close>

definition pallas_p :: int where
  "pallas_p = 28948022309329048855892746252171976963363056481941560715954676764349967630337"

text \<open>The right rotation of a 32-bit value, as a bigint.\<close>

definition rotr32 :: "int \<Rightarrow> int \<Rightarrow> int" where
  "rotr32 n v = uint (word_rotr (nat n) (word_of_int v :: 32 word))"

section \<open>Abstraction of the gadget's values for the refinement proof\<close>

text \<open>
  A computation that returns a 32-bit word, and the word it returns; the same for the
  eight working variables; and the recurrence of the message schedule at index \<open>t\<close>.
\<close>

definition ok32 :: "error + UInt32 \<Rightarrow> bool" where
  "ok32 m \<longleftrightarrow> (case m of Inl e \<Rightarrow> False | Inr u \<Rightarrow> wf32 u)"

definition out32 :: "error + UInt32 \<Rightarrow> 32 word" where
  "out32 m = w32 (projr m)"

definition wf_working :: "working \<Rightarrow> bool" where
  "wf_working s = (case s of (a, b, c, d, e, f, g, h) \<Rightarrow>
     wf32 a \<and> wf32 b \<and> wf32 c \<and> wf32 d \<and> wf32 e \<and> wf32 f \<and> wf32 g \<and> wf32 h)"

definition w32_working :: "working \<Rightarrow> ref_working" where
  "w32_working s = (case s of (a, b, c, d, e, f, g, h) \<Rightarrow>
     (w32 a, w32 b, w32 c, w32 d, w32 e, w32 f, w32 g, w32 h))"

definition schedule_eq :: "UInt32 list \<Rightarrow> nat \<Rightarrow> bool" where
  "schedule_eq W t \<longleftrightarrow>
     w32 (W ! t) = ref_sigma1 (w32 (W ! (t - 2))) + w32 (W ! (t - 7))
                 + ref_sigma0 (w32 (W ! (t - 15))) + w32 (W ! (t - 16))"

text \<open>
  The message \<open>abc\<close>, padded to one block, and its digest in FIPS 180-4.
\<close>

definition abc_block :: "int list" where
  "abc_block = [0x61626380, 0, 0, 0, 0, 0, 0, 0, 0, 0, 0, 0, 0, 0, 0, 0x18]"

definition abc_digest :: "int list" where
  "abc_digest = [0xba7816bf, 0x8f01cfea, 0x414140de, 0x5dae2223,
                 0xb00361a3, 0x96177a9c, 0xb410ff61, 0xf20015ad]"

section \<open>The native curve gadget: shifted scalars\<close>

text \<open>
  Modelled from the spec: the boolean type of the engine, a field element asserted to be
  0 or 1.  \<open>assertBool\<close> fails on any other value; \<open>assertFalse\<close> fails on any value
  but 0.
\<close>

datatype Bool = Bool (toField: Field)

definition assertBool :: "Field \<Rightarrow> error + Bool" where
  "assertBool x = (if toBigInt x = 0 \<or> toBigInt x = 1 then Inr (Bool x) else Inl NotBoolean)"

definition assertFalse :: "Bool \<Rightarrow> error + unit" where
  "assertFalse b = (if toBigInt (toField b) = 0 then Inr () else Inl NotFalse)"

text \<open>
  Modelled from the spec: \<open>bit(x, i)\<close> and \<open>packBits\<close> of the gadgets' common module: the
  bit of a bigint at a position, and the field element \<open>sum of bits[i] * 2^i\<close>.
\<close>

definition bit_bigint :: "int \<Rightarrow> int \<Rightarrow> int" where
  "bit_bigint x i = (bigint_shr x i) AND 1"

definition packBits :: "int \<Rightarrow> Field list \<Rightarrow> Field" where
  "packBits p bits =
     seal (foldl (\<lambda>sum ib. Field_add p sum (Field_mul_number p (snd ib) (bigint_shl 1 (int (fst ib)))))
             (createField p 0) (enumerate 0 bits))"

text \<open>
  The limb width \<open>l\<close> of the range-check module is 88 bits: the source splits the low limb
  into \<open>[5, 83]\<close> bits and notes \<open>t0 < 2^88\<close>.
\<close>

definition l_bits :: nat where
  "l_bits = 88"

text \<open>
  Modelled from the spec: a foreign-field element as three limbs (foreign-field.js is not
  among the gadget files): the represented integer is the sum of the limbs with the
  weights \<open>1\<close>, \<open>2^l\<close>, \<open>2^(2l)\<close>; \<open>Field3.from\<close> splits a bigint into constant limbs.
  The foreign-field subtraction \<open>ForeignField.sub\<close> is a parameter of the gadget: the spec
  gives it only as returning a three-limb result that stands for the difference modulo
  the declared modulus.
\<close>

type_synonym Field3 = "Field \<times> Field \<times> Field"

definition Field3_isConstant :: "Field3 \<Rightarrow> bool" where
  "Field3_isConstant s = (case s of (s0, s1, s2) \<Rightarrow> isConstant s0 \<and> isConstant s1 \<and> isConstant s2)"

definition Field3_toBigint :: "Field3 \<Rightarrow> int" where
  "Field3_toBigint s =
     (case s of (s0, s1, s2) \<Rightarrow>
        toBigInt s0 + bigint_shl (toBigInt s1) (int l_bits) + bigint_shl (toBigInt s2) (2 * int l_bits))"

definition split3 :: "int \<Rightarrow> int \<times> int \<times> int" where
  "split3 x = (take_bit l_bits x, take_bit l_bits (drop_bit l_bits x),
               take_bit l_bits (drop_bit (2 * l_bits) x))"

definition Field3_from :: "int \<Rightarrow> Field3" where
  "Field3_from x = (case split3 x of (x0, x1, x2) \<Rightarrow> (Constant x0, Constant x1, Constant x2))"

type_synonym foreignSub = "Field3 \<Rightarrow> Field3 \<Rightarrow> int \<Rightarrow> Field3"

text \<open>\<open>Fq.mod\<close>: the canonical representative modulo the scalar field's modulus \<open>q\<close>.\<close>

definition Fq_mod :: "int \<Rightarrow> int \<Rightarrow> int" where
  "Fq_mod q x = x mod q"

type_synonym Bool5 = "Bool \<times> Bool \<times> Bool \<times> Bool \<times> Bool"

datatype ShiftedScalar = ShiftedScalar (low5: Bool5) (high250: Field)

text \<open>\<open>toBits(5)\<close> of a constant field element: its five low bits as constant booleans.\<close>

definition toBits5 :: "Field \<Rightarrow> Bool5" where
  "toBits5 x =
     (Bool (Constant (bit_bigint (toBigInt x) 0)), Bool (Constant (bit_bigint (toBigInt x) 1)),
      Bool (Constant (bit_bigint (toBigInt x) 2)), Bool (Constant (bit_bigint (toBigInt x) 3)),
      Bool (Constant (bit_bigint (toBigInt x) 4)))"

text \<open>
  The variable case after the witnesses exist: the five bits are asserted boolean, the
  split of the low limb is proved, and the high part is packed, for any values the prover
  assigned to the bits \<open>tLo\<close> and to \<open>tHi0\<close>.
\<close>

definition field3ToShiftedScalar_constrain ::
  "int \<Rightarrow> Field3 \<Rightarrow> Field \<times> Field \<times> Field \<times> Field \<times> Field \<Rightarrow> Field \<Rightarrow> error + ShiftedScalar" where
  "field3ToShiftedScalar_constrain p t tLo tHi0 =
     (case t of (t0, t1, t2) \<Rightarrow> case tLo of (b0, b1, b2, b3, b4) \<Rightarrow>
        andThen (assertBool b0) (\<lambda>c0.
        andThen (assertBool b1) (\<lambda>c1.
        andThen (assertBool b2) (\<lambda>c2.
        andThen (assertBool b3) (\<lambda>c3.
        andThen (assertBool b4) (\<lambda>c4.
        andThen (assertEquals
                   (Field_add p (packBits p [b0, b1, b2, b3, b4])
                      (Field_mul_number p tHi0 (bigint_shl 1 5))) t0) (\<lambda>_.
          let tHi = seal (Field_add p
                      (Field_add p tHi0 (Field_mul_number p t1 (bigint_shl 1 (int l_bits - 5))))
                      (Field_mul_number p t2 (bigint_shl 1 (2 * int l_bits - 5))))
          in Inr (ShiftedScalar (c0, c1, c2, c3, c4) tHi))))))))"

definition field3ToShiftedScalar ::
  "int \<Rightarrow> int \<Rightarrow> foreignSub \<Rightarrow> Field3 \<Rightarrow> error + ShiftedScalar" where
  "field3ToShiftedScalar p q sub s =
     (if Field3_isConstant s then
        let t = Fq_mod q (Field3_toBigint s - bigint_shl 1 254);
            low5 = toBits5 (createField p (t AND 0x1f));
            high250 = createField p (bigint_shr t 5)
        in Inr (ShiftedScalar low5 high250)
      else
        let twoTo254 = Field3_from (bigint_shl 1 254)
        in case sub s twoTo254 q of (t0, t1, t2) \<Rightarrow>
             let t = toBigInt t0;
                 tLo = (Var (bit_bigint t 0), Var (bit_bigint t 1), Var (bit_bigint t 2),
                        Var (bit_bigint t 3), Var (bit_bigint t 4));
                 tHi0 = Var (bigint_shr t 5)
             in field3ToShiftedScalar_constrain p (t0, t1, t2) tLo tHi0)"

text \<open>
  The integer a shifted scalar stands for, and the scalar field's modulus in the bindings
  (the order of the Pallas curve), used where a run is evaluated on concrete values.
\<close>

definition low5_value :: "Bool5 \<Rightarrow> int" where
  "low5_value b =
     (case b of (b0, b1, b2, b3, b4) \<Rightarrow>
        toBigInt (toField b0) + 2 * toBigInt (toField b1) + 4 * toBigInt (toField b2)
        + 8 * toBigInt (toField b3) + 16 * toBigInt (toField b4))"

definition low5_boolean :: "Bool5 \<Rightarrow> bool" where
  "low5_boolean b =
     (case b of (b0, b1, b2, b3, b4) \<Rightarrow>
        list_all (\<lambda>c. toBigInt (toField c) = 0 \<or> toBigInt (toField c) = 1) [b0, b1, b2, b3, b4])"

definition pallas_q :: int where
  "pallas_q = 28948022309329048855892746252171976963363056481941647379679742748393362948097"

definition scalar_of :: "ShiftedScalar \<Rightarrow> int" where
  "scalar_of T = low5_value (low5 T) + toBigInt (high250 T) * 2 ^ 5"

text \<open>
  One subtraction that meets the spec's contract, for running the gadget on concrete
  values: it returns the limbs of the fully reduced difference as variables.  Nothing
  is proved about the library's subtraction from it.
\<close>

definition reduced_sub :: foreignSub where
  "reduced_sub x y f =
     (case split3 ((Field3_toBigint x - Field3_toBigint y) mod f) of
        (r0, r1, r2) \<Rightarrow> (Var r0, Var r1, Var r2))"

section \<open>The native curve gadget: points and complete addition\<close>

datatype Point = Point (px: Field) (py: Field)

text \<open>
  Modelled from the spec: the arithmetic of the native field on bigints (finite-field.js
  is not among the gadget files): reduction, product, and the modular inverse by the
  extended Euclidean algorithm, which is undefined (\<open>None\<close>) when there is none; \<open>div\<close>
  multiplies by the inverse of the divisor.
\<close>

definition Fp_mod :: "int \<Rightarrow> int \<Rightarrow> int" where
  "Fp_mod p x = x mod p"

definition Fp_mul :: "int \<Rightarrow> int \<Rightarrow> int \<Rightarrow> int" where
  "Fp_mul p x y = (x * y) mod p"

function inverse_loop :: "int \<Rightarrow> int \<Rightarrow> int \<Rightarrow> int \<Rightarrow> int option" where
  "inverse_loop a b x u =
     (if a \<le> 0 then (if b = 1 then Some x else None)
      else inverse_loop (b mod a) a u (x - u * (b div a)))"
  by pat_completeness auto
termination
  by (relation "measure (\<lambda>(a, b, x, u). nat a)") (auto simp add: pos_mod_bound)

declare inverse_loop.simps [simp del]

definition Fp_inverse :: "int \<Rightarrow> int \<Rightarrow> int option" where
  "Fp_inverse p a =
     (if a mod p = 0 then None
      else map_option (\<lambda>x. x mod p) (inverse_loop (a mod p) p 0 1))"

definition Fp_div :: "int \<Rightarrow> int \<Rightarrow> int \<Rightarrow> int option" where
  "Fp_div p x y = map_option (\<lambda>yinv. (x * yinv) mod p) (Fp_inverse p y)"

definition orZero :: "int option \<Rightarrow> int" where
  "orZero v = (case v of Some z \<Rightarrow> z | None \<Rightarrow> 0)"

definition Field_neg :: "int \<Rightarrow> Field \<Rightarrow> Field" where
  "Field_neg p y = mkField (isConstant y) ((- toBigInt y) mod p)"

text \<open>The seven witnesses of \<open>add\<close>, as the prover computes them (the callback of \<open>exists\<close>).\<close>

definition add_witnesses :: "int \<Rightarrow> Point \<Rightarrow> Point \<Rightarrow> int \<times> int \<times> int \<times> int \<times> int \<times> int \<times> int" where
  "add_witnesses p g h =
     (let x1 = toBigInt (px g); y1 = toBigInt (py g);
          x2 = toBigInt (px h); y2 = toBigInt (py h);
          sameX = (if x1 = x2 then 1 else 0);
          isInf = (if sameX \<noteq> 0 \<and> y1 \<noteq> y2 then 1 else 0);
          infZ = (if sameX \<noteq> 0 then orZero (Fp_inverse p (y2 - y1)) else 0);
          x21Inv = orZero (Fp_inverse p (x2 - x1));
          slopeDouble = orZero (Fp_div p (3 * x1 ^ 2) (2 * y1));
          slopeAdd = Fp_mul p (y2 - y1) x21Inv;
          s = (if sameX \<noteq> 0 then slopeDouble else slopeAdd);
          x3 = Fp_mod p (s ^ 2 - x1 - x2);
          y3 = Fp_mod p (s * (x1 - x3) - y1)
      in (sameX, isInf, infZ, x21Inv, s, x3, y3))"

text \<open>
  The native gate \<open>EC_add\<close> belongs to the proof system: the wrapper takes it as a
  parameter, a predicate on the values of the two points, of the result and of the five
  auxiliary witnesses, in the order of the call.
\<close>

type_synonym ecAdd_gate =
  "int \<times> int \<Rightarrow> int \<times> int \<Rightarrow> int \<times> int \<Rightarrow> int \<Rightarrow> int \<Rightarrow> int \<Rightarrow> int \<Rightarrow> int \<Rightarrow> bool"

text \<open>
  The wrapper after the witnesses exist, for any values assigned to them: \<open>inf\<close> is
  asserted boolean and the gate is called on the sealed coordinates, the result and the
  witnesses.  \<open>add\<close> runs it on the values the prover computes.
\<close>

definition add_constrain ::
  "ecAdd_gate \<Rightarrow> Point \<Rightarrow> Point \<Rightarrow> int \<times> int \<times> int \<times> int \<times> int \<times> int \<times> int
     \<Rightarrow> error + (Point \<times> Bool)" where
  "add_constrain ecAdd g h witnesses =
     (case witnesses of (sameX, isInf, infZ, x21Inv, s, x3, y3) \<Rightarrow>
        andThen (assertBool (Var isInf)) (\<lambda>isInfinity.
          if ecAdd (toBigInt (seal (px g)), toBigInt (seal (py g)))
                   (toBigInt (seal (px h)), toBigInt (seal (py h)))
                   (x3, y3) isInf sameX s infZ x21Inv
          then Inr (Point (Var x3) (Var y3), isInfinity)
          else Inl GateUnsatisfied))"

definition add :: "int \<Rightarrow> ecAdd_gate \<Rightarrow> Point \<Rightarrow> Point \<Rightarrow> error + (Point \<times> Bool)" where
  "add p ecAdd g h = add_constrain ecAdd g h (add_witnesses p g h)"

definition addNonZero :: "int \<Rightarrow> ecAdd_gate \<Rightarrow> Point \<Rightarrow> Point \<Rightarrow> error + Point" where
  "addNonZero p ecAdd g h =
     andThen (add p ecAdd g h) (\<lambda>(result, isInfinity).
     andThen (assertFalse isInfinity) (\<lambda>_. Inr result))"

definition negate :: "int \<Rightarrow> Point \<Rightarrow> Point" where
  "negate p g = Point (px g) (Field_neg p (py g))"

section \<open>The reference: the group law of the curve \<open>y^2 = x^3 + b\<close>\<close>

text \<open>
  The chord-and-tangent addition on affine points and the point at infinity, over the
  integers modulo \<open>p\<close>: two points with the same \<open>x\<close> add to infinity unless they are
  equal with \<open>y \<noteq> 0\<close>, in which case the tangent's slope \<open>3 x^2 / (2 y)\<close> is used;
  otherwise the chord's slope \<open>(y2 - y1) / (x2 - x1)\<close>.  The scalar multiple is computed
  by double-and-add over the bits of the scalar.
\<close>

datatype ec_point = Infinity | Affine int int

definition on_curve :: "int \<Rightarrow> int \<Rightarrow> ec_point \<Rightarrow> bool" where
  "on_curve p b P =
     (case P of Infinity \<Rightarrow> True
      | Affine x y \<Rightarrow> 0 \<le> x \<and> x < p \<and> 0 \<le> y \<and> y < p \<and> (y ^ 2 - (x ^ 3 + b)) mod p = 0)"

definition ec_neg :: "int \<Rightarrow> ec_point \<Rightarrow> ec_point" where
  "ec_neg p P = (case P of Infinity \<Rightarrow> Infinity | Affine x y \<Rightarrow> Affine x ((- y) mod p))"

definition ec_slope :: "int \<Rightarrow> int \<Rightarrow> int \<Rightarrow> int \<Rightarrow> int \<Rightarrow> int option" where
  "ec_slope p x1 y1 x2 y2 =
     (if x1 = x2 then Fp_div p (3 * x1 ^ 2) (2 * y1) else Fp_div p (y2 - y1) (x2 - x1))"

definition ec_add :: "int \<Rightarrow> ec_point \<Rightarrow> ec_point \<Rightarrow> ec_point" where
  "ec_add p P Q =
     (case P of Infinity \<Rightarrow> Q
      | Affine x1 y1 \<Rightarrow>
          (case Q of Infinity \<Rightarrow> P
           | Affine x2 y2 \<Rightarrow>
               if x1 = x2 \<and> \<not> (y1 = y2 \<and> y1 \<noteq> 0) then Infinity
               else (case ec_slope p x1 y1 x2 y2 of
                       None \<Rightarrow> Infinity
                     | Some s \<Rightarrow>
                         let x3 = (s ^ 2 - x1 - x2) mod p
                         in Affine x3 ((s * (x1 - x3) - y1) mod p))))"

fun ec_scale_nat :: "int \<Rightarrow> ec_point \<Rightarrow> nat \<Rightarrow> ec_point" where
  "ec_scale_nat p P n =
     (if n = 0 then Infinity
      else let D = ec_scale_nat p P (n div 2); D2 = ec_add p D D
           in if n mod 2 = 0 then D2 else ec_add p D2 P)"

definition point_of :: "Point \<Rightarrow> ec_point" where
  "point_of g = Affine (toBigInt (px g)) (toBigInt (py g))"

text \<open>
  An odd prime modulus, and the slope and degenerate-case algebra that the native addition
  gate re-checks on the values it is given: \<open>same_x\<close> marks equal abscissas, \<open>s\<close> is the
  slope of the tangent or of the chord, the third point lies on that line, and \<open>inf\<close> marks
  equal abscissas with different ordinates.
\<close>

definition prime_modulus :: "int \<Rightarrow> bool" where
  "prime_modulus p \<longleftrightarrow> 2 < p \<and> list_all (\<lambda>d. \<not> d dvd p) [2..p - 1]"

definition ecAdd_algebra :: "int \<Rightarrow> ecAdd_gate" where
  "ecAdd_algebra p g h r isInf same_x s inf_z x21_inv =
     (case g of (x1, y1) \<Rightarrow> case h of (x2, y2) \<Rightarrow> case r of (x3, y3) \<Rightarrow>
        ((x2 - x1) * same_x) mod p = 0 \<and>
        (x21_inv * (x2 - x1) - (1 - same_x)) mod p = 0 \<and>
        (same_x * (2 * s * y1 - 3 * x1 ^ 2) + (1 - same_x) * ((x2 - x1) * s - (y2 - y1))) mod p = 0 \<and>
        (x1 + x2 + x3 - s ^ 2) mod p = 0 \<and>
        (s * (x1 - x3) - (y1 + y3)) mod p = 0 \<and>
        ((y2 - y1) * (same_x - isInf)) mod p = 0 \<and>
        ((y2 - y1) * inf_z - isInf) mod p = 0)"

definition gate_complete :: "int \<Rightarrow> ecAdd_gate \<Rightarrow> bool" where
  "gate_complete p ecAdd \<longleftrightarrow>
     (\<forall>g h r isInf same_x s inf_z x21_inv.
        ecAdd_algebra p g h r isInf same_x s inf_z x21_inv \<longrightarrow> ecAdd g h r isInf same_x s inf_z x21_inv)"

definition gate_sound :: "int \<Rightarrow> ecAdd_gate \<Rightarrow> bool" where
  "gate_sound p ecAdd \<longleftrightarrow>
     (\<forall>g h r isInf same_x s inf_z x21_inv.
        ecAdd g h r isInf same_x s inf_z x21_inv \<longrightarrow> ecAdd_algebra p g h r isInf same_x s inf_z x21_inv)"

text \<open>
  A curve of odd order, as the Pallas curve is, has no point of order two: no affine
  point with ordinate 0, that is, \<open>x^3 + b\<close> has no root modulo \<open>p\<close>.
\<close>

definition no_point_of_order_two :: "int \<Rightarrow> int \<Rightarrow> bool" where
  "no_point_of_order_two p b \<longleftrightarrow> list_all (\<lambda>x. (x ^ 3 + b) mod p \<noteq> 0) [0..p - 1]"

text \<open>
  What the wrapper has to return for the points \<open>g\<close> and \<open>h\<close>: a boolean flag that is 1
  exactly when \<open>h = -g\<close>, and otherwise the sum of the group law.
\<close>

definition add_result_ok :: "int \<Rightarrow> Point \<Rightarrow> Point \<Rightarrow> Point \<Rightarrow> Bool \<Rightarrow> bool" where
  "add_result_ok p g h result isInfinity \<longleftrightarrow>
     (toBigInt (toField isInfinity) = 0 \<or> toBigInt (toField isInfinity) = 1) \<and>
     (toBigInt (toField isInfinity) = 1 \<longleftrightarrow> point_of h = ec_neg p (point_of g)) \<and>
     (toBigInt (toField isInfinity) = 0 \<longrightarrow>
        ec_add p (point_of g) (point_of h) = point_of result)"

section \<open>Facts about the basic operations\<close>

lemma andThen_Inr_iff:
  "andThen m f = Inr r \<longleftrightarrow> (\<exists>v. m = Inr v \<and> f v = Inr r)"
  by (cases m) (simp_all add: andThen_def)

lemma assert_Inr_iff: "assert c msg = Inr u \<longleftrightarrow> c"
  by (simp add: assert_def)

lemma toBigInt_mkField: "toBigInt (mkField c v) = v"
  by (simp add: mkField_def)

lemma isConstant_mkField: "isConstant (mkField c v) = c"
  by (simp add: mkField_def)

lemma assertEquals_Inr_iff: "assertEquals x y = Inr u \<longleftrightarrow> toBigInt x = toBigInt y"
  by (simp add: assertEquals_def)

lemma js_shl_one:
  assumes "0 \<le> k" "k \<le> 30"
  shows "js_shl 1 k = 2 ^ nat k"
proof -
  have k: "k mod 32 = k" using assms by simp
  have "nat k < 31" using assms by simp
  then have lt: "(2::int) ^ nat k < 2 ^ 31"
    by (rule power_strict_increasing) simp
  have "- (2 ^ 31) \<le> (0::int)" by simp
  also have "(0::int) \<le> 2 ^ nat k" by simp
  finally have ge: "- (2 ^ 31) \<le> (2::int) ^ nat k" .
  have "push_bit (nat k) (1 :: 32 word) = word_of_int (2 ^ nat k)"
    by (simp add: push_bit_eq_mult)
  then have "sint (push_bit (nat k) (1 :: 32 word)) = signed_take_bit (32 - 1) (2 ^ nat k :: int)"
    by (simp only: sint_sbintrunc' len_num1 len_bit0 mult_1_right) simp
  also have "\<dots> = 2 ^ nat k"
    using lt ge by (simp only: signed_take_bit_int_eq_self_iff) simp
  finally show ?thesis by (simp add: js_shl_def k)
qed

lemma range16_iff:
  "assertEquals (rangeCheckHelper 16 x) x = Inr u \<longleftrightarrow> 0 \<le> toBigInt x \<and> toBigInt x < 2 ^ 16"
  by (simp add: assertEquals_Inr_iff rangeCheckHelper_def toBigInt_mkField take_bit_int_eq_self_iff)

lemma rangeCheckNSmall_checks:
  "rangeCheckNSmall p x n = Inr () \<longleftrightarrow>
     n \<le> 16 \<and> 0 \<le> toBigInt x \<and> toBigInt x < 2 ^ 16 \<and>
     (n \<noteq> 16 \<longrightarrow>
        0 \<le> toBigInt (Field_mul_number p x (js_shl 1 (16 - n))) \<and>
        toBigInt (Field_mul_number p x (js_shl 1 (16 - n))) < 2 ^ 16)"
  by (auto simp add: rangeCheckNSmall_def andThen_Inr_iff assert_Inr_iff range16_iff Let_def
      seal_def)

lemma rangeCheckNSmall_width_iff:
  assumes p: "2 ^ 32 \<le> p" and n: "0 \<le> n" "n \<le> 16"
    and x: "0 \<le> toBigInt x"
  shows "rangeCheckNSmall p x n = Inr () \<longleftrightarrow> toBigInt x < 2 ^ nat n"
proof (cases "n = 16")
  case True
  then show ?thesis
    using x by (simp add: rangeCheckNSmall_def andThen_Inr_iff assert_Inr_iff range16_iff)
next
  case False
  define k where "k = nat (16 - n)"
  define v where "v = toBigInt x"
  have sh: "js_shl 1 (16 - n) = 2 ^ k"
    using n by (simp add: js_shl_one k_def)
  have kn: "k + nat n = 16" using n by (simp add: k_def)
  have pw: "(2::int) ^ 16 = 2 ^ nat n * 2 ^ k"
    using kn by (metis add.commute power_add)
  have k16: "(2::int) ^ k \<le> 2 ^ 16"
    using kn by (intro power_increasing) simp_all
  have p0: "0 < p" using p by simp
  have small: "(2::int) ^ k mod p = 2 ^ k"
    using p k16 by (simp add: mod_pos_pos_trivial)
  have scaled: "toBigInt (seal (Field_mul_number p x (js_shl 1 (16 - n)))) = (v * 2 ^ k) mod p"
    by (simp add: seal_def Field_mul_number_def Field_mul_def createField_def toBigInt_mkField
        sh small v_def)
  have nonneg: "0 \<le> (v * 2 ^ k) mod p" using p0 by simp
  have main: "v < 2 ^ 16 \<and> (v * 2 ^ k) mod p < 2 ^ 16 \<longleftrightarrow> v < 2 ^ nat n"
  proof
    assume a: "v < 2 ^ 16 \<and> (v * 2 ^ k) mod p < 2 ^ 16"
    have "v * 2 ^ k \<le> v * 2 ^ 16"
      using x k16 by (intro mult_left_mono) (simp_all add: v_def)
    moreover have "v * 2 ^ 16 < 2 ^ 16 * 2 ^ 16"
      using a by (intro mult_strict_right_mono) simp_all
    ultimately have "v * 2 ^ k < p" using p by simp
    moreover have "0 \<le> v * 2 ^ k" using x by (simp add: v_def)
    ultimately have "(v * 2 ^ k) mod p = v * 2 ^ k" by (simp add: mod_pos_pos_trivial)
    with a have "v * 2 ^ k < 2 ^ nat n * 2 ^ k" using pw by simp
    then show "v < 2 ^ nat n" by simp
  next
    assume b: "v < 2 ^ nat n"
    have "(2::int) ^ nat n \<le> 2 ^ 16"
      using n by (intro power_increasing) simp_all
    with b have v16: "v < 2 ^ 16" by simp
    have lt: "v * 2 ^ k < 2 ^ nat n * 2 ^ k" using b by simp
    then have lt16: "v * 2 ^ k < 2 ^ 16" by (simp only: pw)
    then have "v * 2 ^ k < p" using p by simp
    moreover have "0 \<le> v * 2 ^ k" using x by (simp add: v_def)
    ultimately have "(v * 2 ^ k) mod p = v * 2 ^ k" by (simp add: mod_pos_pos_trivial)
    with lt16 v16 show "v < 2 ^ 16 \<and> (v * 2 ^ k) mod p < 2 ^ 16" by simp
  qed
  show ?thesis
    using False n x main nonneg
    by (simp add: rangeCheckNSmall_def andThen_Inr_iff assert_Inr_iff range16_iff scaled Let_def
        v_def)
qed

lemma rangeCheckNSmall_Inr_iff:
  assumes "2 ^ 32 \<le> p" "0 \<le> n" "0 \<le> toBigInt x"
  shows "rangeCheckNSmall p x n = Inr () \<longleftrightarrow> n \<le> 16 \<and> toBigInt x < 2 ^ nat n"
proof (cases "n \<le> 16")
  case True
  then show ?thesis using assms by (simp add: rangeCheckNSmall_width_iff)
next
  case False
  then show ?thesis by (simp add: rangeCheckNSmall_def andThen_def assert_def)
qed

lemma ROTR3_rangeChecks_Inr_iff:
  assumes p: "2 ^ 32 \<le> p"
    and r: "0 \<le> r0" "r0 \<le> r1" "r1 \<le> r2"
    and x: "0 \<le> toBigInt x0" "0 \<le> toBigInt x1" "0 \<le> toBigInt x2" "0 \<le> toBigInt x3"
  shows "ROTR3_rangeChecks p (r0, r1, r2) (x0, x1, x2, x3) = Inr () \<longleftrightarrow>
     r0 \<le> 16 \<and> r1 - r0 \<le> 16 \<and> r2 - r1 \<le> 16 \<and> 32 - r2 \<le> 16 \<and>
     toBigInt x0 < 2 ^ nat r0 \<and> toBigInt x1 < 2 ^ nat (r1 - r0) \<and>
     toBigInt x2 < 2 ^ nat (r2 - r1) \<and> toBigInt x3 < 2 ^ 16"
proof -
  have c0: "rangeCheckNSmall p x0 r0 = Inr () \<longleftrightarrow> r0 \<le> 16 \<and> toBigInt x0 < 2 ^ nat r0"
    using p r x by (intro rangeCheckNSmall_Inr_iff) simp_all
  have c1: "rangeCheckNSmall p x1 (r1 - r0) = Inr () \<longleftrightarrow>
      r1 - r0 \<le> 16 \<and> toBigInt x1 < 2 ^ nat (r1 - r0)"
    using p r x by (intro rangeCheckNSmall_Inr_iff) simp_all
  have c2: "rangeCheckNSmall p x2 (r2 - r1) = Inr () \<longleftrightarrow>
      r2 - r1 \<le> 16 \<and> toBigInt x2 < 2 ^ nat (r2 - r1)"
    using p r x by (intro rangeCheckNSmall_Inr_iff) simp_all
  have c3: "rangeCheckNSmall p x3 16 = Inr () \<longleftrightarrow> toBigInt x3 < 2 ^ 16"
    using rangeCheckNSmall_Inr_iff [of p 16 x3] p x by simp
  show ?thesis
    unfolding ROTR3_rangeChecks_def Let_def prod.case andThen_Inr_iff assert_Inr_iff
    using c0 c1 c2 c3 by auto
qed

lemma toBigInt_Field_add: "toBigInt (Field_add p a b) = (toBigInt a + toBigInt b) mod p"
  by (simp add: Field_add_def toBigInt_mkField)

lemma toBigInt_Field_mul_number:
  "toBigInt (Field_mul_number p a k) = (toBigInt a * (k mod p)) mod p"
  by (simp add: Field_mul_number_def Field_mul_def createField_def toBigInt_mkField)

lemma mul_lt_bound:
  fixes a b :: int
  assumes "0 \<le> a" "a < A" "0 \<le> b" "b \<le> B" "0 < B"
  shows "a * b < A * B"
proof -
  have "a * b \<le> a * B" using assms by (intro mult_left_mono) simp_all
  also have "a * B < A * B" using assms by (intro mult_strict_right_mono) simp_all
  finally show ?thesis .
qed

lemma pow2_le_16:
  assumes "d \<le> 16"
  shows "(2::int) ^ nat d \<le> 65536"
proof -
  have "(2::int) ^ nat d \<le> 2 ^ 16"
    using assms by (intro power_increasing) simp_all
  then show ?thesis by simp
qed

text \<open>The decomposition proved by the assertion, read over the integers.\<close>

lemma decomposition_no_wrap:
  fixes v0 v1 v2 v3 :: int
  assumes p: "2 ^ 67 \<le> p"
    and v: "0 \<le> v0" "v0 < 65536" "0 \<le> v1" "v1 < 65536" "0 \<le> v2" "v2 < 65536" "0 \<le> v3" "v3 < 65536"
    and e: "0 < e0" "e0 \<le> 65536" "0 < e1" "e1 \<le> 65536" "0 < e2" "e2 \<le> 65536"
  shows "(v2 + (v3 * (e2 mod p)) mod p) mod p = v2 + v3 * e2"
    and "(v1 + ((v2 + v3 * e2) * (e1 mod p)) mod p) mod p = v1 + (v2 + v3 * e2) * e1"
    and "(v0 + ((v1 + (v2 + v3 * e2) * e1) * (e0 mod p)) mod p) mod p
           = v0 + (v1 + (v2 + v3 * e2) * e1) * e0"
proof -
  have p': "147573952589676412928 \<le> p" using p by simp
  have m0: "e0 mod p = e0" and m1: "e1 mod p = e1" and m2: "e2 mod p = e2"
    using e p' by (simp_all add: mod_pos_pos_trivial)
  have b3: "v3 * e2 < 65536 * 65536" using v e by (intro mul_lt_bound) simp_all
  have n3: "0 \<le> v3 * e2" using v e by simp
  then have s3: "(v3 * e2) mod p = v3 * e2" using b3 p' by (simp add: mod_pos_pos_trivial)
  have b23: "v2 + v3 * e2 < 8589934592" using v b3 by simp
  have n23: "0 \<le> v2 + v3 * e2" using v n3 by simp
  show g1: "(v2 + (v3 * (e2 mod p)) mod p) mod p = v2 + v3 * e2"
    using b23 n23 p' by (simp add: m2 s3 mod_pos_pos_trivial)
  have b23e: "(v2 + v3 * e2) * e1 < 8589934592 * 65536"
    using n23 b23 e by (intro mul_lt_bound) simp_all
  have n23e: "0 \<le> (v2 + v3 * e2) * e1" using n23 e by simp
  then have s23: "((v2 + v3 * e2) * e1) mod p = (v2 + v3 * e2) * e1"
    using b23e p' by (simp add: mod_pos_pos_trivial)
  have b123: "v1 + (v2 + v3 * e2) * e1 < 1125899906842624" using v b23e by simp
  have n123: "0 \<le> v1 + (v2 + v3 * e2) * e1" using v n23e by simp
  show g2: "(v1 + ((v2 + v3 * e2) * (e1 mod p)) mod p) mod p = v1 + (v2 + v3 * e2) * e1"
    using b123 n123 p' by (simp add: m1 s23 mod_pos_pos_trivial)
  have b123e: "(v1 + (v2 + v3 * e2) * e1) * e0 < 1125899906842624 * 65536"
    using n123 b123 e by (intro mul_lt_bound) simp_all
  have n123e: "0 \<le> (v1 + (v2 + v3 * e2) * e1) * e0" using n123 e by simp
  then have s123: "((v1 + (v2 + v3 * e2) * e1) * e0) mod p = (v1 + (v2 + v3 * e2) * e1) * e0"
    using b123e p' by (simp add: mod_pos_pos_trivial)
  have b: "v0 + (v1 + (v2 + v3 * e2) * e1) * e0 < 147573952589676412928" using v b123e by simp
  have n: "0 \<le> v0 + (v1 + (v2 + v3 * e2) * e1) * e0" using v n123e by simp
  show "(v0 + ((v1 + (v2 + v3 * e2) * e1) * (e0 mod p)) mod p) mod p
           = v0 + (v1 + (v2 + v3 * e2) * e1) * e0"
    using b n p' by (simp add: m0 s123 mod_pos_pos_trivial)
qed

lemma ROTR3_constrain_Inr_iff:
  "ROTR3_constrain p x (r0, r1, r2) (x0, x1, x2, x3) = Inr out \<longleftrightarrow>
     ROTR3_rangeChecks p (r0, r1, r2) (x0, x1, x2, x3) = Inr () \<and>
     toBigInt (Field_add p x0 (Field_mul_number p
        (Field_add p x1 (Field_mul_number p
          (Field_add p x2 (Field_mul_number p x3 (js_shl 1 (r2 - r1)))) (js_shl 1 (r1 - r0))))
        (js_shl 1 r0))) = toBigInt x \<and>
     andThen (UInt32_from (Field_add p
          (Field_add p x1 (Field_mul_number p
            (Field_add p x2 (Field_mul_number p x3 (js_shl 1 (r2 - r1)))) (js_shl 1 (r1 - r0))))
          (Field_mul_number p x0 (js_shl 1 (r1 - r0 + (r2 - r1) + (32 - r2)))))) (\<lambda>a.
     andThen (UInt32_from (Field_add p
          (Field_add p x2 (Field_mul_number p x3 (js_shl 1 (r2 - r1))))
          (Field_mul_number p (Field_add p x0 (Field_mul_number p x1 (js_shl 1 r0)))
             (js_shl 1 (r2 - r1 + (32 - r2)))))) (\<lambda>b.
     andThen (UInt32_from (Field_add p x3
          (Field_mul_number p
             (Field_add p (Field_add p x0 (Field_mul_number p x1 (js_shl 1 r0)))
                (Field_mul_number p x2 (js_shl 1 (r0 + (r1 - r0)))))
             (js_shl 1 (32 - r2))))) (\<lambda>c. Inr (a, b, c)))) = Inr out"
  by (simp add: ROTR3_constrain_def Let_def seal_def andThen_Inr_iff assertEquals_Inr_iff)

lemma ROTR3_constrain_decomposition:
  assumes p: "2 ^ 67 \<le> p"
    and r: "0 \<le> r0" "r0 \<le> r1" "r1 \<le> r2"
    and x: "0 \<le> toBigInt x0" "0 \<le> toBigInt x1" "0 \<le> toBigInt x2" "0 \<le> toBigInt x3"
    and ok: "ROTR3_constrain p x (r0, r1, r2) (x0, x1, x2, x3) = Inr out"
  shows "toBigInt x = toBigInt x0 + (toBigInt x1 + (toBigInt x2
           + toBigInt x3 * 2 ^ nat (r2 - r1)) * 2 ^ nat (r1 - r0)) * 2 ^ nat r0"
proof -
  have p32: "(2::int) ^ 32 \<le> p" using p by simp
  from ok have rc: "ROTR3_rangeChecks p (r0, r1, r2) (x0, x1, x2, x3) = Inr ()"
    and eq: "toBigInt (Field_add p x0 (Field_mul_number p
        (Field_add p x1 (Field_mul_number p
          (Field_add p x2 (Field_mul_number p x3 (js_shl 1 (r2 - r1)))) (js_shl 1 (r1 - r0))))
        (js_shl 1 r0))) = toBigInt x"
    by (simp_all add: ROTR3_constrain_Inr_iff)
  from rc have w: "r0 \<le> 16" "r1 - r0 \<le> 16" "r2 - r1 \<le> 16"
    and b: "toBigInt x0 < 2 ^ nat r0" "toBigInt x1 < 2 ^ nat (r1 - r0)"
      "toBigInt x2 < 2 ^ nat (r2 - r1)" "toBigInt x3 < 2 ^ 16"
    using ROTR3_rangeChecks_Inr_iff [OF p32 r x] by simp_all
  have s0: "js_shl 1 r0 = 2 ^ nat r0" using r w by (intro js_shl_one) simp_all
  have s1: "js_shl 1 (r1 - r0) = 2 ^ nat (r1 - r0)" using r w by (intro js_shl_one) simp_all
  have s2: "js_shl 1 (r2 - r1) = 2 ^ nat (r2 - r1)" using r w by (intro js_shl_one) simp_all
  have e0: "(2::int) ^ nat r0 \<le> 65536" using w by (intro pow2_le_16)
  have e1: "(2::int) ^ nat (r1 - r0) \<le> 65536" using w by (intro pow2_le_16)
  have e2: "(2::int) ^ nat (r2 - r1) \<le> 65536" using w by (intro pow2_le_16)
  have v: "toBigInt x0 < 65536" "toBigInt x1 < 65536" "toBigInt x2 < 65536" "toBigInt x3 < 65536"
    using b e0 e1 e2 by simp_all
  note d = decomposition_no_wrap [OF p x(1) v(1) x(2) v(2) x(3) v(3) x(4) v(4) _ e0 _ e1 _ e2]
  have "toBigInt (Field_add p x0 (Field_mul_number p
        (Field_add p x1 (Field_mul_number p
          (Field_add p x2 (Field_mul_number p x3 (js_shl 1 (r2 - r1)))) (js_shl 1 (r1 - r0))))
        (js_shl 1 r0))) = toBigInt x0 + (toBigInt x1 + (toBigInt x2
           + toBigInt x3 * 2 ^ nat (r2 - r1)) * 2 ^ nat (r1 - r0)) * 2 ^ nat r0"
    by (simp add: toBigInt_Field_add toBigInt_Field_mul_number s0 s1 s2 d)
  with eq show ?thesis by simp
qed

lemma ROTR3_x3_bound_aux:
  assumes p: "2 ^ 67 \<le> p"
    and r: "0 \<le> r0" "r0 \<le> r1" "r1 \<le> r2" "r2 \<le> 32"
    and x: "0 \<le> toBigInt x0" "0 \<le> toBigInt x1" "0 \<le> toBigInt x2" "0 \<le> toBigInt x3"
    and x32: "toBigInt x < 2 ^ 32"
    and ok: "ROTR3_constrain p x (r0, r1, r2) (x0, x1, x2, x3) = Inr out"
  shows "toBigInt x3 < 2 ^ nat (32 - r2)"
proof -
  define a where "a = (2::int) ^ nat r0"
  define b where "b = (2::int) ^ nat (r1 - r0)"
  define c where "c = (2::int) ^ nat (r2 - r1)"
  have pos: "0 < a" "0 < b" "0 < c" by (simp_all add: a_def b_def c_def)
  have eq: "toBigInt x = toBigInt x0 + (toBigInt x1 + (toBigInt x2 + toBigInt x3 * c) * b) * a"
    unfolding a_def b_def c_def
    by (rule ROTR3_constrain_decomposition [OF p r(1-3) x ok])
  have "nat (r2 - r1) + nat (r1 - r0) + nat r0 = nat r2" using r by simp
  then have abc: "c * b * a = 2 ^ nat r2"
    unfolding a_def b_def c_def by (metis power_add)
  have "nat (32 - r2) + nat r2 = 32" using r by simp
  then have two32: "(2::int) ^ 32 = 2 ^ nat (32 - r2) * 2 ^ nat r2"
    by (metis power_add)
  have "0 \<le> toBigInt x0 + (toBigInt x1 + toBigInt x2 * b) * a"
    using x pos by simp
  moreover have "toBigInt x = toBigInt x3 * (c * b * a)
       + (toBigInt x0 + (toBigInt x1 + toBigInt x2 * b) * a)"
    unfolding eq by (simp add: algebra_simps)
  ultimately have "toBigInt x3 * (c * b * a) \<le> toBigInt x" by simp
  with x32 have "toBigInt x3 * 2 ^ nat r2 < 2 ^ 32" unfolding abc by simp
  then have "toBigInt x3 * 2 ^ nat r2 < 2 ^ nat (32 - r2) * 2 ^ nat r2"
    by (simp only: two32)
  then show ?thesis by simp
qed


section \<open>Claims about the chunked rotation\<close>

text \<open>
  Claim C6.  For a field element \<open>x\<close> and a width \<open>n\<close> of at most 16 bits, the checks
  emitted by \<open>rangeCheckNSmall\<close> are that \<open>x < 2^16\<close> and, when \<open>n < 16\<close>, that
  \<open>x * 2^(16-n) < 2^16\<close> in the field; they are satisfied exactly when \<open>x < 2^n\<close>.
\<close>

theorem rangeCheckNSmall_scale_then_check:
  assumes p: "2 ^ 32 \<le> p" and n: "0 \<le> n" "n \<le> 16" and x: "0 \<le> toBigInt x"
  shows "(rangeCheckNSmall p x n = Inr () \<longleftrightarrow>
            toBigInt x < 2 ^ 16 \<and>
            (n < 16 \<longrightarrow> (toBigInt x * 2 ^ nat (16 - n)) mod p < 2 ^ 16))
       \<and> (rangeCheckNSmall p x n = Inr () \<longleftrightarrow> toBigInt x < 2 ^ nat n)"
proof -
  have sh: "js_shl 1 (16 - n) = 2 ^ nat (16 - n)"
    using n by (intro js_shl_one) simp_all
  have "(2::int) ^ nat (16 - n) \<le> 65536" by (intro pow2_le_16) (use n in simp)
  then have small: "(2::int) ^ nat (16 - n) mod p = 2 ^ nat (16 - n)"
    using p by (simp add: mod_pos_pos_trivial)
  have "0 < p" using p by simp
  then have nonneg: "0 \<le> (toBigInt x * 2 ^ nat (16 - n)) mod p" by simp
  have "rangeCheckNSmall p x n = Inr () \<longleftrightarrow>
            toBigInt x < 2 ^ 16 \<and>
            (n < 16 \<longrightarrow> (toBigInt x * 2 ^ nat (16 - n)) mod p < 2 ^ 16)"
    unfolding rangeCheckNSmall_checks toBigInt_Field_mul_number sh small
    using n x nonneg by auto
  moreover have "rangeCheckNSmall p x n = Inr () \<longleftrightarrow> toBigInt x < 2 ^ nat n"
    using p n x by (rule rangeCheckNSmall_width_iff)
  ultimately show ?thesis by blast
qed

theorem rangeCheckNSmall_scale_then_check_witness:
  "rangeCheckNSmall pallas_p (Var 5) 3 = Inr () \<and> toBigInt (Var 5) < 2 ^ nat 3
   \<and> rangeCheckNSmall pallas_p (Var 9) 3 \<noteq> Inr ()"
  using rangeCheckNSmall_scale_then_check [of pallas_p 3 "Var 5"]
    rangeCheckNSmall_scale_then_check [of pallas_p 3 "Var 9"]
  by (simp add: pallas_p_def)

text \<open>
  Claim C8, as the code has it.  For a variable word, \<open>ROTR3\<close> range-checks the chunks
  \<open>x0\<close>, \<open>x1\<close>, \<open>x2\<close> to their widths \<open>d0\<close>, \<open>d1\<close>, \<open>d2\<close> (each at most 16 bits);
  the chunk \<open>x3\<close> is checked to 16 bits, not to its width \<open>d3\<close>, after the assertion
  that \<open>d3\<close> is at most 16.
\<close>

theorem ROTR3_rangeChecks_widths:
  assumes "2 ^ 32 \<le> p"
    and "0 \<le> r0" "r0 \<le> r1" "r1 \<le> r2"
    and "0 \<le> toBigInt x0" "0 \<le> toBigInt x1" "0 \<le> toBigInt x2" "0 \<le> toBigInt x3"
  shows "ROTR3_rangeChecks p (r0, r1, r2) (x0, x1, x2, x3) = Inr () \<longleftrightarrow>
     r0 \<le> 16 \<and> r1 - r0 \<le> 16 \<and> r2 - r1 \<le> 16 \<and> 32 - r2 \<le> 16 \<and>
     toBigInt x0 < 2 ^ nat r0 \<and> toBigInt x1 < 2 ^ nat (r1 - r0) \<and>
     toBigInt x2 < 2 ^ nat (r2 - r1) \<and> toBigInt x3 < 2 ^ 16"
  using assms by (rule ROTR3_rangeChecks_Inr_iff)

theorem ROTR3_rangeChecks_widths_witness:
  "ROTR3_rangeChecks pallas_p (2, 13, 22) (Var 3, Var 2047, Var 511, Var 65535) = Inr ()"
  using ROTR3_rangeChecks_widths [of pallas_p 2 13 22 "Var 3" "Var 2047" "Var 511" "Var 65535"]
  by (simp add: pallas_p_def)

text \<open>
  The claim C8 as it was stated, that the chunk \<open>x3\<close> is range-checked to its width
  \<open>d3\<close>, fails: for the rotation amounts \<open>(2, 13, 22)\<close> of \<open>SigmaZero\<close> the width is
  \<open>d3 = 10\<close>, and the range checks accept \<open>x3 = 2^10\<close>.
\<close>

theorem ROTR3_rangeChecks_x3_counterexample:
  "ROTR3_rangeChecks pallas_p (2, 13, 22) (Var 0, Var 0, Var 0, Var 1024) = Inr ()
   \<and> \<not> toBigInt (Var 1024) < 2 ^ nat (32 - 22)"
  by code_simp

text \<open>
  Claim C9.  Whatever values the prover assigns to the four chunks of a variable word
  \<open>x < 2^32\<close>: when they satisfy the constraints of \<open>ROTR3\<close> (the three range checks to
  \<open>d0\<close>, \<open>d1\<close>, \<open>d2\<close>, the 16-bit check of \<open>x3\<close> and the decomposition of \<open>x\<close>), the
  fourth chunk is below \<open>2^d3\<close>.
\<close>

theorem ROTR3_x3_bound:
  assumes "2 ^ 67 \<le> p"
    and "0 \<le> r0" "r0 < r1" "r1 < r2" "r2 < 32"
    and "0 \<le> toBigInt x0" "0 \<le> toBigInt x1" "0 \<le> toBigInt x2" "0 \<le> toBigInt x3"
    and "toBigInt x < 2 ^ 32"
    and "ROTR3_constrain p x (r0, r1, r2) (x0, x1, x2, x3) = Inr out"
  shows "toBigInt x3 < 2 ^ nat (32 - r2)"
  using assms by (intro ROTR3_x3_bound_aux [of p r0 r1 r2 x0 x1 x2 x3 x out]) simp_all

theorem ROTR3_x3_bound_witness:
  "toBigInt (Var 72) < 2 ^ nat (32 - 22)"
proof -
  have ok: "ROTR3_constrain pallas_p (Var 305419896) (2, 13, 22) (Var 0, Var 1438, Var 418, Var 72)
      = Inr (UInt32 (Var 76354974), UInt32 (Var 3015741858), UInt32 (Var 3512328264))"
    by code_simp
  show ?thesis
    by (rule ROTR3_x3_bound [OF _ _ _ _ _ _ _ _ _ _ ok]) (simp_all add: pallas_p_def)
qed

text \<open>
  Claim C2 fails on the code.  The variable path multiplies by \<open>1 << (d1 + d2 + d3)\<close>, a
  shift of JavaScript numbers: for \<open>r0 = 1\<close> the shift count is 31 and the factor is
  \<open>-2^31\<close>, so for the word 1 and the rotation amounts \<open>(1, 11, 21)\<close> (chunk widths 1, 10,
  10, 11) the first output is \<open>p - 2^31\<close>, where the rotation of 1 by one bit, which the
  constant path returns, is \<open>2^31\<close>.
\<close>

theorem ROTR3_variable_shift_31:
  "ROTR3 pallas_p (UInt32 (Var 1)) (1, 11, 21)
     = Inr (UInt32 (Var (pallas_p - 2 ^ 31)), UInt32 (Var 2097152), UInt32 (Var 2048))
   \<and> ROTR3 pallas_p (UInt32 (Constant 1)) (1, 11, 21)
     = Inr (UInt32 (Constant (2 ^ 31)), UInt32 (Constant 2097152), UInt32 (Constant 2048))
   \<and> ROTR 1 (UInt32 (Var 1)) = Inr (UInt32 (Var (2 ^ 31)))"
  by code_simp

text \<open>
  Claim C7 fails on the code.  \<open>ROTR3\<close> does not look at the order of the rotation
  amounts: the variable word 1 with the amounts \<open>(16, 10, 20)\<close> and the constant word 1
  with \<open>(22, 13, 2)\<close> are both accepted and a result is returned.
\<close>

theorem ROTR3_unsorted_accepted:
  "ROTR3 pallas_p (UInt32 (Var 1)) (16, 10, 20)
     = Inr (UInt32 (Var 65536), UInt32 (Var 4194304), UInt32 (Var 4096))
   \<and> ROTR3 pallas_p (UInt32 (Constant 1)) (22, 13, 2)
     = Inr (UInt32 (Constant 1024), UInt32 (Constant 524288), UInt32 (Constant 1073741824))"
  by code_simp

section \<open>The variable path of the chunked rotation\<close>

lemma lin_exact:
  fixes u w k p :: int
  assumes "0 \<le> u" "0 \<le> w" "0 \<le> k" "k < p" "u + w * k < p"
  shows "(u + (w * (k mod p)) mod p) mod p = u + w * k"
proof -
  have k: "k mod p = k" using assms by (simp add: mod_pos_pos_trivial)
  have wk: "0 \<le> w * k" using assms by simp
  then have "w * k < p" using assms by simp
  with wk have "(w * k) mod p = w * k" by (simp add: mod_pos_pos_trivial)
  moreover have "(u + w * k) mod p = u + w * k"
    using assms wk by (simp add: mod_pos_pos_trivial)
  ultimately show ?thesis by (simp add: k)
qed

lemma split_low: "(x::int) = x mod 2 ^ m + (x div 2 ^ m) * 2 ^ m"
  by (simp only: mod_div_mult_eq)

lemma split_div: "(x::int) div 2 ^ m = (x div 2 ^ m) mod 2 ^ n + (x div 2 ^ (m + n)) * 2 ^ n"
proof -
  have "(x div 2 ^ m) div 2 ^ n = x div 2 ^ (m + n)"
    by (simp add: power_add zdiv_zmult2_eq)
  then show ?thesis using split_low [of "x div 2 ^ m" n] by simp
qed

lemma split_mod: "(x::int) mod 2 ^ (m + n) = x mod 2 ^ m + ((x div 2 ^ m) mod 2 ^ n) * 2 ^ m"
  using zmod_zmult2_eq [of "2 ^ n" x "2 ^ m"] by (simp add: power_add mult.commute)

lemma div_less_of_less_mult:
  fixes x a b :: int
  assumes "0 < b" "x < a * b"
  shows "x div b < a"
proof (rule ccontr)
  assume "\<not> x div b < a"
  then have le: "a * b \<le> (x div b) * b"
    using assms by (intro mult_right_mono) simp_all
  have "x = (x div b) * b + x mod b" by simp
  moreover have "0 \<le> x mod b" using assms by simp
  ultimately have "(x div b) * b \<le> x" by linarith
  with le assms(2) show False by linarith
qed

lemma rotr32_value:
  assumes "0 \<le> x" "x < 2 ^ 32" "n \<le> 32"
  shows "uint (word_rotr n (word_of_int x :: 32 word)) = x div 2 ^ n + (x mod 2 ^ n) * 2 ^ (32 - n)"
proof (cases "n = 32")
  case True
  have "uint (word_of_int x :: 32 word) = x"
    using assms by (simp add: uint_word_of_int take_bit_eq_mod mod_pos_pos_trivial)
  moreover have "x div 2 ^ 32 = 0" using assms by (simp add: div_pos_pos_trivial)
  moreover have "x mod 2 ^ 32 = x" using assms by (simp add: mod_pos_pos_trivial)
  ultimately show ?thesis
    using True assms
    by (simp add: uint_word_rotr_eq concat_bit_eq take_bit_eq_mod mod_pos_pos_trivial)
next
  case False
  then have n: "n < 32" using assms by simp
  have ux: "uint (word_of_int x :: 32 word) = x"
    using assms by (simp add: uint_word_of_int take_bit_eq_mod mod_pos_pos_trivial)
  have lt: "x div 2 ^ n < 2 ^ (32 - n)"
  proof -
    have "(2::int) ^ 32 = 2 ^ (32 - n) * 2 ^ n"
      using n by (metis le_add_diff_inverse2 less_imp_le power_add)
    then have "x < 2 ^ (32 - n) * 2 ^ n" using assms by simp
    then show ?thesis by (intro div_less_of_less_mult) simp_all
  qed
  have ge: "0 \<le> x div 2 ^ n" using assms by (simp add: pos_imp_zdiv_nonneg_iff)
  have "uint (take_bit n (word_of_int x :: 32 word)) = take_bit n x"
    by (simp only: unsigned_take_bit_eq ux)
  then have "uint (word_rotr n (word_of_int x :: 32 word))
      = take_bit (32 - n) (x div 2 ^ n) + (x mod 2 ^ n) * 2 ^ (32 - n)"
    using n by (simp add: uint_word_rotr_eq concat_bit_eq ux drop_bit_eq_div
        take_bit_eq_mod push_bit_eq_mult)
  moreover have "take_bit (32 - n) (x div 2 ^ n) = x div 2 ^ n"
    using lt ge by (simp add: take_bit_eq_mod mod_pos_pos_trivial)
  ultimately show ?thesis by simp
qed

lemma bitSlice_eq:
  assumes "0 \<le> start" "0 \<le> len"
  shows "bitSlice x start len = (x div 2 ^ nat start) mod 2 ^ nat len"
proof -
  have "bigint_shl 1 len - 1 = mask (nat len)"
    using assms by (simp add: bigint_shl_def mask_eq_exp_minus_1)
  then show ?thesis
    using assms
    by (simp add: bitSlice_def bigint_shr_def drop_bit_eq_div flip: take_bit_eq_mask take_bit_eq_mod)
qed

lemma div_pow2_bounds:
  fixes x :: int
  assumes "0 \<le> x" "x < 2 ^ 32"
  shows "0 \<le> x div 2 ^ m" "x div 2 ^ m < 2 ^ 32" "0 \<le> x mod 2 ^ m" "x mod 2 ^ m < 2 ^ 32"
proof -
  show "0 \<le> x div 2 ^ m" using assms by (simp add: pos_imp_zdiv_nonneg_iff)
  have "(1::int) \<le> 2 ^ m" by simp
  then have "(2::int) ^ 32 * 1 \<le> 2 ^ 32 * 2 ^ m" by (intro mult_left_mono) simp_all
  then have "(2::int) ^ 32 \<le> 2 ^ 32 * 2 ^ m" by simp
  then have "x < 2 ^ 32 * 2 ^ m" using assms(2) by linarith
  then show "x div 2 ^ m < 2 ^ 32" by (intro div_less_of_less_mult) simp_all
  show "0 \<le> x mod 2 ^ m" by simp
  have "x mod 2 ^ m \<le> x" using assms by (simp add: zmod_le_nonneg_dividend)
  then show "x mod 2 ^ m < 2 ^ 32" using assms by simp
qed

text \<open>
  The arithmetic of the four chunks of a 32-bit value \<open>x\<close> cut at the bits \<open>a \<le> b \<le> c\<close>:
  the recomposition and the three re-weighted sums, none of which wraps around a modulus of
  at least \<open>2^32\<close>.
\<close>

lemma chunk_arith:
  fixes x p :: int and a b c :: nat
  assumes p: "2 ^ 32 \<le> p" and x: "0 \<le> x" "x < 2 ^ 32"
    and abc: "a \<le> b" "b \<le> c" "c \<le> 31"
    and sh: "2 \<le> a"
  defines "c0 \<equiv> x mod 2 ^ a"
    and "c1 \<equiv> (x div 2 ^ a) mod 2 ^ (b - a)"
    and "c2 \<equiv> (x div 2 ^ b) mod 2 ^ (c - b)"
    and "c3 \<equiv> (x div 2 ^ c) mod 2 ^ (32 - c)"
  shows "(c2 + (c3 * (2 ^ (c - b) mod p)) mod p) mod p = x div 2 ^ b"
    and "(c1 + ((x div 2 ^ b) * (2 ^ (b - a) mod p)) mod p) mod p = x div 2 ^ a"
    and "(c0 + ((x div 2 ^ a) * (2 ^ a mod p)) mod p) mod p = x"
    and "(x div 2 ^ a + (c0 * (2 ^ (32 - a) mod p)) mod p) mod p
           = x div 2 ^ a + (x mod 2 ^ a) * 2 ^ (32 - a)"
    and "(c0 + (c1 * (2 ^ a mod p)) mod p) mod p = x mod 2 ^ b"
    and "(x div 2 ^ b + ((x mod 2 ^ b) * (2 ^ (32 - b) mod p)) mod p) mod p
           = x div 2 ^ b + (x mod 2 ^ b) * 2 ^ (32 - b)"
    and "(x mod 2 ^ b + (c2 * (2 ^ b mod p)) mod p) mod p = x mod 2 ^ c"
    and "(c3 + ((x mod 2 ^ c) * (2 ^ (32 - c) mod p)) mod p) mod p
           = x div 2 ^ c + (x mod 2 ^ c) * 2 ^ (32 - c)"
proof -
  have ex: "(u + (w * (2 ^ n mod p)) mod p) mod p = u + w * 2 ^ n"
    if "0 \<le> u" "0 \<le> w" "n \<le> 31" "u + w * 2 ^ n < 2 ^ 32" for u w :: int and n :: nat
  proof (rule lin_exact)
    have "(2::int) ^ n < 2 ^ 32" using that(3) by (intro power_strict_increasing) simp_all
    with p show "(2::int) ^ n < p" by simp
    show "u + w * 2 ^ n < p" using that(4) p by simp
  qed (use that in simp_all)
  note bd = div_pow2_bounds [OF x]
  have nn: "0 \<le> c0" "0 \<le> c1" "0 \<le> c2" "0 \<le> c3"
    by (simp_all add: c0_def c1_def c2_def c3_def)
  have c3_eq: "c3 = x div 2 ^ c"
  proof -
    have "(2::int) ^ 32 = 2 ^ (32 - c) * 2 ^ c"
      using abc by (metis le_add_diff_inverse2 power_add le_trans nat_le_linear numeral_le_iff
          semiring_norm(69,72,73))
    then have "x < 2 ^ (32 - c) * 2 ^ c" using x by simp
    then have "x div 2 ^ c < 2 ^ (32 - c)"
      by (intro div_less_of_less_mult) simp_all
    then show ?thesis
      using bd(1) [of c] by (simp add: c3_def mod_pos_pos_trivial)
  qed
  have rot_lt: "x div 2 ^ n + (x mod 2 ^ n) * 2 ^ (32 - n) < 2 ^ 32" if "n \<le> 32" for n
  proof -
    have "uint (word_rotr n (word_of_int x :: 32 word)) < 2 ^ 32"
      using uint_lt2p [of "word_rotr n (word_of_int x :: 32 word)"] by simp
    then show ?thesis using rotr32_value [OF x that] by simp
  qed
  have e1: "x div 2 ^ b = c2 + c3 * 2 ^ (c - b)"
    using split_div [of x b "c - b"] abc by (simp add: c2_def c3_eq)
  have "c2 + c3 * 2 ^ (c - b) < 2 ^ 32" using bd(2) [of b] e1 by simp
  then show "(c2 + (c3 * (2 ^ (c - b) mod p)) mod p) mod p = x div 2 ^ b"
    unfolding e1 using nn abc by (intro ex) simp_all
  have e2: "x div 2 ^ a = c1 + (x div 2 ^ b) * 2 ^ (b - a)"
    using split_div [of x a "b - a"] abc by (simp add: c1_def)
  have "c1 + (x div 2 ^ b) * 2 ^ (b - a) < 2 ^ 32" using bd(2) [of a] e2 by simp
  then show "(c1 + ((x div 2 ^ b) * (2 ^ (b - a) mod p)) mod p) mod p = x div 2 ^ a"
    unfolding e2 using nn abc bd(1) by (intro ex) simp_all
  have e3: "x = c0 + (x div 2 ^ a) * 2 ^ a"
    using split_low [of x a] by (simp add: c0_def)
  have "c0 + (x div 2 ^ a) * 2 ^ a < 2 ^ 32" using x e3 by simp
  then have "(c0 + ((x div 2 ^ a) * (2 ^ a mod p)) mod p) mod p = c0 + (x div 2 ^ a) * 2 ^ a"
    using nn abc bd(1) by (intro ex) simp_all
  then show "(c0 + ((x div 2 ^ a) * (2 ^ a mod p)) mod p) mod p = x"
    using e3 by simp
  show "(x div 2 ^ a + (c0 * (2 ^ (32 - a) mod p)) mod p) mod p
           = x div 2 ^ a + (x mod 2 ^ a) * 2 ^ (32 - a)"
    unfolding c0_def using bd(1,3) sh rot_lt [of a] abc by (intro ex) simp_all
  have e5: "x mod 2 ^ b = c0 + c1 * 2 ^ a"
    using split_mod [of x a "b - a"] abc by (simp add: c0_def c1_def)
  have "c0 + c1 * 2 ^ a < 2 ^ 32" using bd(4) [of b] e5 by simp
  then show "(c0 + (c1 * (2 ^ a mod p)) mod p) mod p = x mod 2 ^ b"
    unfolding e5 using nn abc by (intro ex) simp_all
  show "(x div 2 ^ b + ((x mod 2 ^ b) * (2 ^ (32 - b) mod p)) mod p) mod p
           = x div 2 ^ b + (x mod 2 ^ b) * 2 ^ (32 - b)"
    using bd(1,3) sh rot_lt [of b] abc by (intro ex) simp_all
  have e7: "x mod 2 ^ c = x mod 2 ^ b + c2 * 2 ^ b"
    using split_mod [of x b "c - b"] abc by (simp add: c2_def)
  have "x mod 2 ^ b + c2 * 2 ^ b < 2 ^ 32" using bd(4) [of c] e7 by simp
  then show "(x mod 2 ^ b + (c2 * (2 ^ b mod p)) mod p) mod p = x mod 2 ^ c"
    unfolding e7 using nn abc bd(3) by (intro ex) simp_all
  show "(c3 + ((x mod 2 ^ c) * (2 ^ (32 - c) mod p)) mod p) mod p
           = x div 2 ^ c + (x mod 2 ^ c) * 2 ^ (32 - c)"
    unfolding c3_eq using bd(1,3) rot_lt [of c] abc sh by (intro ex) simp_all
qed

lemma Field_add_Var: "Field_add p (Var u) y = Var ((u + toBigInt y) mod p)"
  by (simp add: Field_add_def mkField_def)

lemma Field_mul_number_Var: "Field_mul_number p (Var u) k = Var ((u * (k mod p)) mod p)"
  by (simp add: Field_mul_number_def Field_mul_def createField_def mkField_def)

lemma UInt32_from_Var: "UInt32_from (Var u) = Inr (UInt32 (Var u))"
  by (simp add: UInt32_from_def)

lemma andThen_Inr: "andThen (Inr v) f = f v"
  by (simp add: andThen_def)

text \<open>
  The variable path of \<open>ROTR3\<close> with the chunks the prover computes: for rotation
  amounts \<open>2 \<le> r0 < r1 < r2 < 32\<close> with chunk widths of at most 16 bits, every
  constraint is satisfied and the three outputs are the rotations of the word.
\<close>

lemma ROTR3_variable_correct:
  assumes p: "2 ^ 32 \<le> p" and v: "0 \<le> v" "v < 2 ^ 32"
    and r: "2 \<le> r0" "r0 < r1" "r1 < r2" "r2 < 32"
    and w: "r0 \<le> 16" "r1 - r0 \<le> 16" "r2 - r1 \<le> 16" "32 - r2 \<le> 16"
  shows "ROTR3 p (UInt32 (Var v)) (r0, r1, r2)
     = Inr (UInt32 (Var (rotr32 r0 v)), UInt32 (Var (rotr32 r1 v)), UInt32 (Var (rotr32 r2 v)))"
proof -
  define a where "a = nat r0"
  define b where "b = nat r1"
  define c where "c = nat r2"
  have abc: "a \<le> b" "b \<le> c" "c \<le> 31" "2 \<le> a"
    using r by (simp_all add: a_def b_def c_def)
  have n: "nat (r1 - r0) = b - a" "nat (r2 - r1) = c - b" "nat (32 - r2) = 32 - c"
      "nat (32 - r0) = 32 - a" "nat (32 - r1) = 32 - b"
    using r by (simp_all add: a_def b_def c_def)
  define c0 where "c0 = v mod 2 ^ a"
  define c1 where "c1 = (v div 2 ^ a) mod 2 ^ (b - a)"
  define c2 where "c2 = (v div 2 ^ b) mod 2 ^ (c - b)"
  define c3 where "c3 = (v div 2 ^ c) mod 2 ^ (32 - c)"
  note ar = chunk_arith [OF p v abc, folded c0_def c1_def c2_def c3_def]
  have chunks: "ROTR3_chunks v (r0, r1, r2) = (c0, c1, c2, c3)"
    using r by (simp add: ROTR3_chunks_def Let_def bitSlice_eq n c0_def c1_def c2_def c3_def
        flip: a_def b_def c_def)
  have sh: "js_shl 1 r0 = 2 ^ a" "js_shl 1 (r1 - r0) = 2 ^ (b - a)"
      "js_shl 1 (r2 - r1) = 2 ^ (c - b)" "js_shl 1 (32 - r2) = 2 ^ (32 - c)"
      "js_shl 1 (r1 - r0 + (r2 - r1) + (32 - r2)) = 2 ^ (32 - a)"
      "js_shl 1 (r2 - r1 + (32 - r2)) = 2 ^ (32 - b)"
      "js_shl 1 (r0 + (r1 - r0)) = 2 ^ b"
      "js_shl 1 (32 - r0) = 2 ^ (32 - a)" "js_shl 1 (32 - r1) = 2 ^ (32 - b)"
      "js_shl 1 r1 = 2 ^ b"
    using r by (simp_all add: js_shl_one n flip: a_def b_def c_def)
  have rc: "ROTR3_rangeChecks p (r0, r1, r2) (Var c0, Var c1, Var c2, Var c3) = Inr ()"
  proof -
    have "c3 < 2 ^ (32 - c)" by (simp add: c3_def)
    also have "(2::int) ^ (32 - c) \<le> 2 ^ 16"
      using w by (intro power_increasing) (simp_all add: c_def)
    finally have "c3 < 2 ^ 16" .
    then show ?thesis
      using p r w
      by (subst ROTR3_rangeChecks_Inr_iff)
        (simp_all add: n c0_def c1_def c2_def c3_def flip: a_def b_def c_def)
  qed
  have rot: "rotr32 r0 v = v div 2 ^ a + (v mod 2 ^ a) * 2 ^ (32 - a)"
      "rotr32 r1 v = v div 2 ^ b + (v mod 2 ^ b) * 2 ^ (32 - b)"
      "rotr32 r2 v = v div 2 ^ c + (v mod 2 ^ c) * 2 ^ (32 - c)"
    using abc by (simp_all add: rotr32_def rotr32_value [OF v] flip: a_def b_def c_def)
  have "ROTR3_constrain p (Var v) (r0, r1, r2) (Var c0, Var c1, Var c2, Var c3)
     = Inr (UInt32 (Var (rotr32 r0 v)), UInt32 (Var (rotr32 r1 v)), UInt32 (Var (rotr32 r2 v)))"
    unfolding ROTR3_constrain_Inr_iff
    by (simp add: rc sh Field_add_Var Field_mul_number_Var UInt32_from_Var andThen_Inr ar rot)
      (simp add: c0_def)
  then show ?thesis
    by (simp add: ROTR3_def chunks)
qed

section \<open>SHA256.hash refines the reference\<close>

lemma ok32_Inr: "ok32 (Inr u) = wf32 u"
  by (simp add: ok32_def)

lemma out32_Inr: "out32 (Inr u) = w32 u"
  by (simp add: out32_def)

lemma ok32_andThen: "ok32 m \<Longrightarrow> andThen m f = f (projr m)"
  by (cases m) (simp_all add: ok32_def andThen_def)

lemma ok32_wf: "ok32 m \<Longrightarrow> wf32 (projr m)"
  by (cases m) (simp_all add: ok32_def)

lemma w32_projr: "w32 (projr m) = out32 m"
  by (simp add: out32_def)

lemma fits32_wf: "wf32 x \<Longrightarrow> fits 32 (val x) = Inr ()"
  by (simp add: fits_def wf32_def)

lemma uint32_bounds: "0 \<le> uint (w :: 32 word)" "uint (w :: 32 word) < 2 ^ 32"
  using uint_lt2p [of w] by simp_all

lemma wf32_uint: "wf32 (UInt32 (mkField c (uint (w :: 32 word))))"
  using uint32_bounds by (simp add: wf32_def toBigInt_mkField)

lemma w32_uint: "w32 (UInt32 (mkField c (uint (w :: 32 word)))) = w"
  by (simp add: w32_def toBigInt_mkField)

lemma binop32_ok:
  assumes "wf32 x" "wf32 y"
  shows "ok32 (binop32 f x y)" and "out32 (binop32 f x y) = f (w32 x) (w32 y)"
  using assms
  by (simp_all add: binop32_def fits32_wf andThen_Inr ok32_Inr out32_Inr wf32_uint w32_uint)
    (simp add: w32_def)

lemma unop32_ok:
  assumes "wf32 x"
  shows "ok32 (unop32 f x)" and "out32 (unop32 f x) = f (w32 x)"
  using assms
  by (simp_all add: unop32_def fits32_wf andThen_Inr ok32_Inr out32_Inr wf32_uint w32_uint)
    (simp add: w32_def)

lemma and_ok:
  "wf32 x \<Longrightarrow> wf32 y \<Longrightarrow> ok32 (UInt32_and x y)"
  "wf32 x \<Longrightarrow> wf32 y \<Longrightarrow> out32 (UInt32_and x y) = w32 x AND w32 y"
  by (simp_all add: UInt32_and_def binop32_ok)

lemma xor_ok:
  "wf32 x \<Longrightarrow> wf32 y \<Longrightarrow> ok32 (UInt32_xor x y)"
  "wf32 x \<Longrightarrow> wf32 y \<Longrightarrow> out32 (UInt32_xor x y) = w32 x XOR w32 y"
  by (simp_all add: UInt32_xor_def binop32_ok)

lemma not_ok:
  "wf32 x \<Longrightarrow> ok32 (UInt32_not x)"
  "wf32 x \<Longrightarrow> out32 (UInt32_not x) = NOT (w32 x)"
  by (simp_all add: UInt32_not_def unop32_ok)

lemma ROTR_ok:
  "wf32 x \<Longrightarrow> 0 \<le> n \<Longrightarrow> n \<le> 32 \<Longrightarrow> ok32 (ROTR n x)"
  "wf32 x \<Longrightarrow> 0 \<le> n \<Longrightarrow> n \<le> 32 \<Longrightarrow> out32 (ROTR n x) = word_rotr (nat n) (w32 x)"
  by (simp_all add: ROTR_def UInt32_rotate_right_def assert_def andThen_Inr unop32_ok)

lemma SHR_ok:
  "wf32 x \<Longrightarrow> 0 \<le> n \<Longrightarrow> n \<le> 32 \<Longrightarrow> ok32 (SHR n x)"
  "wf32 x \<Longrightarrow> 0 \<le> n \<Longrightarrow> n \<le> 32 \<Longrightarrow> out32 (SHR n x) = drop_bit (nat n) (w32 x)"
  by (simp_all add: SHR_def UInt32_rightShift_def assert_def andThen_Inr unop32_ok)

lemmas word_ok = and_ok xor_ok not_ok ROTR_ok SHR_ok ok32_andThen ok32_wf w32_projr

lemma Ch_ok:
  assumes "wf32 x" "wf32 y" "wf32 z"
  shows "ok32 (Ch x y z)" and "out32 (Ch x y z) = ref_Ch (w32 x) (w32 y) (w32 z)"
  using assms by (simp_all add: Ch_def ref_Ch_def word_ok)

lemma Maj_ok:
  assumes "wf32 x" "wf32 y" "wf32 z"
  shows "ok32 (Maj x y z)" and "out32 (Maj x y z) = ref_Maj (w32 x) (w32 y) (w32 z)"
  using assms by (simp_all add: Maj_def ref_Maj_def word_ok xor.assoc)

lemma DeltaZero_ok:
  assumes "wf32 x"
  shows "ok32 (DeltaZero x)" and "out32 (DeltaZero x) = ref_sigma0 (w32 x)"
  using assms by (simp_all add: DeltaZero_def ref_sigma0_def word_ok xor.assoc)

lemma DeltaOne_ok:
  assumes "wf32 x"
  shows "ok32 (DeltaOne x)" and "out32 (DeltaOne x) = ref_sigma1 (w32 x)"
  using assms by (simp_all add: DeltaOne_def ref_sigma1_def word_ok xor.assoc)

lemma wf32_rotr32: "wf32 (UInt32 (Var (rotr32 n v)))"
  using uint32_bounds by (simp add: wf32_def rotr32_def)

lemma w32_rotr32:
  "w32 (UInt32 (Var (rotr32 n v))) = word_rotr (nat n) (w32 (UInt32 (Var v)))"
  by (simp add: w32_def rotr32_def)

text \<open>
  \<open>ROTR3\<close> on a 32-bit word, constant or variable: the three rotations, for rotation
  amounts \<open>2 \<le> r0 < r1 < r2 < 32\<close> with chunk widths of at most 16 bits.
\<close>

lemma ROTR3_ok:
  assumes p: "2 ^ 32 \<le> p" and x: "wf32 x"
    and r: "2 \<le> r0" "r0 < r1" "r1 < r2" "r2 < 32"
    and w: "r0 \<le> 16" "r1 - r0 \<le> 16" "r2 - r1 \<le> 16" "32 - r2 \<le> 16"
  shows "\<exists>a b c. ROTR3 p x (r0, r1, r2) = Inr (a, b, c) \<and> wf32 a \<and> wf32 b \<and> wf32 c \<and>
     w32 a = word_rotr (nat r0) (w32 x) \<and> w32 b = word_rotr (nat r1) (w32 x) \<and>
     w32 c = word_rotr (nat r2) (w32 x)"
proof (cases x)
  case (UInt32 f)
  show ?thesis
  proof (cases f)
    case (Constant v)
    have "ROTR3 p x (r0, r1, r2)
        = Inr (projr (ROTR r0 x), projr (ROTR r1 x), projr (ROTR r2 x))"
      using x r UInt32 Constant by (simp add: ROTR3_def ROTR3Simple_def word_ok)
    then show ?thesis using x r by (simp add: word_ok)
  next
    case (Var v)
    have v: "0 \<le> v" "v < 2 ^ 32" using x UInt32 Var by (simp_all add: wf32_def)
    show ?thesis
      unfolding UInt32 Var ROTR3_variable_correct [OF p v r w]
      by (simp add: wf32_rotr32 w32_rotr32)
  qed
qed

lemma SigmaZero_ok:
  assumes "2 ^ 32 \<le> p" "wf32 x"
  shows "ok32 (SigmaZero p x)" and "out32 (SigmaZero p x) = ref_Sigma0 (w32 x)"
proof -
  obtain a b c where "ROTR3 p x (2, 13, 22) = Inr (a, b, c)" "wf32 a" "wf32 b" "wf32 c"
     "w32 a = word_rotr 2 (w32 x)" "w32 b = word_rotr 13 (w32 x)" "w32 c = word_rotr 22 (w32 x)"
    using ROTR3_ok [OF assms, of 2 13 22] by auto
  then show "ok32 (SigmaZero p x)" and "out32 (SigmaZero p x) = ref_Sigma0 (w32 x)"
    by (simp_all add: SigmaZero_def ref_Sigma0_def andThen_Inr word_ok xor.assoc)
qed

lemma SigmaOne_ok:
  assumes "2 ^ 32 \<le> p" "wf32 x"
  shows "ok32 (SigmaOne p x)" and "out32 (SigmaOne p x) = ref_Sigma1 (w32 x)"
proof -
  obtain a b c where "ROTR3 p x (6, 11, 25) = Inr (a, b, c)" "wf32 a" "wf32 b" "wf32 c"
     "w32 a = word_rotr 6 (w32 x)" "w32 b = word_rotr 11 (w32 x)" "w32 c = word_rotr 25 (w32 x)"
    using ROTR3_ok [OF assms, of 6 11 25] by auto
  then show "ok32 (SigmaOne p x)" and "out32 (SigmaOne p x) = ref_Sigma1 (w32 x)"
    by (simp_all add: SigmaOne_def ref_Sigma1_def andThen_Inr word_ok xor.assoc)
qed

lemma wf32_bounds: "wf32 u \<Longrightarrow> 0 \<le> toBigInt (val u)" "wf32 u \<Longrightarrow> toBigInt (val u) < 2 ^ 32"
  by (simp_all add: wf32_def)

lemma Field_add_bounded:
  assumes "0 \<le> toBigInt x" "toBigInt x < m" "0 \<le> toBigInt y" "toBigInt y < n" "m + n \<le> p"
  shows "toBigInt (Field_add p x y) = toBigInt x + toBigInt y"
    and "0 \<le> toBigInt (Field_add p x y)"
    and "toBigInt (Field_add p x y) < m + n"
proof -
  show "toBigInt (Field_add p x y) = toBigInt x + toBigInt y"
    using assms by (simp add: toBigInt_Field_add mod_pos_pos_trivial)
  then show "0 \<le> toBigInt (Field_add p x y)" "toBigInt (Field_add p x y) < m + n"
    using assms by simp_all
qed

lemma divMod32_eq:
  assumes "0 \<le> toBigInt F" "toBigInt F < 2 ^ 64"
  shows "divMod32 F = Inr (mkField (isConstant F) (drop_bit 32 (toBigInt F)),
                           mkField (isConstant F) (take_bit 32 (toBigInt F)))"
  using assms by (simp add: divMod32_def fits_def andThen_Inr)

lemma take_bit32_bounds: "0 \<le> take_bit 32 (v::int)" "take_bit 32 (v::int) < 2 ^ 32"
  using take_bit_int_less_exp [of 32 v] by simp_all

lemma UInt32_from_take_bit:
  "UInt32_from (mkField c (take_bit 32 v)) = Inr (UInt32 (mkField c (take_bit 32 v)))"
  using take_bit32_bounds [of v]
  by (simp add: UInt32_from_def fits_def toBigInt_mkField andThen_Inr)

lemma wf32_take_bit: "wf32 (UInt32 (mkField c (take_bit 32 v)))"
  using take_bit32_bounds [of v] by (simp add: wf32_def toBigInt_mkField)

lemma w32_take_bit: "w32 (UInt32 (mkField c (take_bit 32 v))) = word_of_int v"
  by (simp add: w32_def toBigInt_mkField word_of_int_eq_iff)

text \<open>Reducing a sum below \<open>2^64\<close> to a word: the remainder of \<open>divMod32\<close>.\<close>

lemma reduce32:
  assumes "0 \<le> toBigInt F" "toBigInt F < 2 ^ 64"
  shows "andThen (divMod32 F) (\<lambda>qr. andThen (UInt32_from (remainder qr)) g)
     = g (UInt32 (mkField (isConstant F) (take_bit 32 (toBigInt F))))"
  by (simp add: divMod32_eq [OF assms] andThen_Inr remainder_def UInt32_from_take_bit)

lemma js_get_Some: "i < length ws \<Longrightarrow> js_get (map Some ws) i = Inr (ws ! i)"
  by (simp add: js_get_def)

lemma js_set_append: "js_set (map Some ws) (length ws) w = map Some (ws @ [w])"
  by (simp add: js_set_def)

lemma copyBlock_Some: "16 \<le> length M \<Longrightarrow> copyBlock M = map Some (take 16 M)"
  by (auto simp add: copyBlock_def list_eq_iff_nth_eq)

lemma scheduleStep_ok:
  assumes p: "2 ^ 35 \<le> p" and ws: "list_all wf32 ws" and n: "16 \<le> length ws"
  shows "\<exists>w. scheduleStep p (length ws) (map Some ws) = Inr (map Some (ws @ [w])) \<and> wf32 w \<and>
     map w32 (ws @ [w]) = ref_scheduleStep (length ws) (map w32 ws) \<and>
     w32 w = ref_sigma1 (w32 (ws ! (length ws - 2))) + w32 (ws ! (length ws - 7))
           + ref_sigma0 (w32 (ws ! (length ws - 15))) + w32 (ws ! (length ws - 16))"
proof -
  define t where "t = length ws"
  define w2 where "w2 = ws ! (t - 2)"
  define w7 where "w7 = ws ! (t - 7)"
  define w15 where "w15 = ws ! (t - 15)"
  define w16 where "w16 = ws ! (t - 16)"
  define d1 where "d1 = projr (DeltaOne w2)"
  define d0 where "d0 = projr (DeltaZero w15)"
  have wf: "wf32 w2" "wf32 w7" "wf32 w15" "wf32 w16"
    using ws n by (simp_all add: list_all_length w2_def w7_def w15_def w16_def t_def)
  have get: "js_get (map Some ws) (t - 2) = Inr w2" "js_get (map Some ws) (t - 7) = Inr w7"
      "js_get (map Some ws) (t - 15) = Inr w15" "js_get (map Some ws) (t - 16) = Inr w16"
    using n by (simp_all add: js_get_Some w2_def w7_def w15_def w16_def t_def)
  have d: "wf32 d1" "wf32 d0" "w32 d1 = ref_sigma1 (w32 w2)" "w32 d0 = ref_sigma0 (w32 w15)"
    using wf by (simp_all add: d1_def d0_def word_ok DeltaOne_ok DeltaZero_ok)
  define F where "F = Field_add p (Field_add p (val d1) (val w7)) (Field_add p (val d0) (val w16))"
  have p': "2 ^ 32 + 2 ^ 32 \<le> p" "(2 ^ 32 + 2 ^ 32) + (2 ^ 32 + 2 ^ 32) \<le> p" using p by simp_all
  note s1 = Field_add_bounded [OF wf32_bounds [OF d(1)] wf32_bounds [OF wf(2)] p'(1)]
  note s2 = Field_add_bounded [OF wf32_bounds [OF d(2)] wf32_bounds [OF wf(4)] p'(1)]
  note s3 = Field_add_bounded [OF s1(2,3) s2(2,3) p'(2)]
  have F: "toBigInt F = toBigInt (val d1) + toBigInt (val w7) + (toBigInt (val d0) + toBigInt (val w16))"
    "0 \<le> toBigInt F" "toBigInt F < 2 ^ 64"
    using s1 s2 s3 by (simp_all add: F_def)
  define w where "w = UInt32 (mkField (isConstant F) (take_bit 32 (toBigInt F)))"
  have step: "scheduleStep p t (map Some ws) = Inr (js_set (map Some ws) t w)"
    using wf
    by (simp add: scheduleStep_def get andThen_Inr word_ok DeltaOne_ok DeltaZero_ok Let_def
        reduce32 [OF F(2,3)] w_def flip: d1_def d0_def F_def)
  have "w32 w = word_of_int (toBigInt F)" by (simp add: w_def w32_take_bit)
  also have "\<dots> = w32 d1 + w32 w7 + (w32 d0 + w32 w16)" by (simp add: F(1) w32_def)
  finally have w: "wf32 w" "w32 w = ref_sigma1 (w32 w2) + w32 w7 + ref_sigma0 (w32 w15) + w32 w16"
    using d(3,4) by (simp_all add: w_def wf32_take_bit)
  have "map w32 (ws @ [w]) = ref_scheduleStep t (map w32 ws)"
    using n by (simp add: ref_scheduleStep_def w w2_def w7_def w15_def w16_def t_def)
  with step w show ?thesis
    by (auto simp add: t_def js_set_append w2_def w7_def w15_def w16_def)
qed

lemma schedule_loop:
  assumes p: "2 ^ 35 \<le> p"
  shows "list_all wf32 ws \<Longrightarrow> 16 \<le> length ws \<Longrightarrow> m - length ws = k \<Longrightarrow>
     \<exists>ws'. forEachM [length ws..<m] (scheduleStep p) (map Some ws) = Inr (map Some ws') \<and>
       list_all wf32 ws' \<and> length ws' = max (length ws) m \<and>
       map w32 ws' = fold ref_scheduleStep [length ws..<m] (map w32 ws) \<and>
       take (length ws) ws' = ws \<and>
       (\<forall>t. length ws \<le> t \<and> t < m \<longrightarrow> schedule_eq ws' t)"
proof (induction k arbitrary: ws)
  case 0
  then show ?case by (intro exI [of _ ws]) auto
next
  case (Suc k)
  define n where "n = length ws"
  have lt: "n < m" and n16: "16 \<le> n" using Suc.prems by (simp_all add: n_def)
  obtain w where w: "scheduleStep p n (map Some ws) = Inr (map Some (ws @ [w]))"
      "wf32 w" "map w32 (ws @ [w]) = ref_scheduleStep n (map w32 ws)"
      "w32 w = ref_sigma1 (w32 (ws ! (n - 2))) + w32 (ws ! (n - 7))
           + ref_sigma0 (w32 (ws ! (n - 15))) + w32 (ws ! (n - 16))"
    using scheduleStep_ok [OF p Suc.prems(1,2)] unfolding n_def by blast
  have "\<exists>ws'. forEachM [length (ws @ [w])..<m] (scheduleStep p) (map Some (ws @ [w]))
        = Inr (map Some ws') \<and>
       list_all wf32 ws' \<and> length ws' = max (length (ws @ [w])) m \<and>
       map w32 ws' = fold ref_scheduleStep [length (ws @ [w])..<m] (map w32 (ws @ [w])) \<and>
       take (length (ws @ [w])) ws' = ws @ [w] \<and>
       (\<forall>t. length (ws @ [w]) \<le> t \<and> t < m \<longrightarrow> schedule_eq ws' t)"
    using Suc.prems w(2) by (intro Suc.IH) simp_all
  then obtain ws' where ws': "forEachM [Suc n..<m] (scheduleStep p) (map Some (ws @ [w]))
        = Inr (map Some ws')" "list_all wf32 ws'" "length ws' = max (Suc n) m"
       "map w32 ws' = fold ref_scheduleStep [Suc n..<m] (map w32 (ws @ [w]))"
       "take (Suc n) ws' = ws @ [w]"
       "\<forall>t. Suc n \<le> t \<and> t < m \<longrightarrow> schedule_eq ws' t"
    by (auto simp add: n_def)
  have nth: "ws' ! i = (ws @ [w]) ! i" if "i < Suc n" for i
    using that ws'(5) by (metis nth_take)
  have "take n ws' = take n (take (Suc n) ws')" by (simp add: min_def)
  then have pre: "take n ws' = ws" unfolding ws'(5) by (simp add: n_def)
  have last: "ws' ! n = w" using nth [of n] by (simp add: nth_append n_def)
  have prev: "ws' ! (n - j) = ws ! (n - j)" if "0 < j" "j \<le> n" for j
  proof -
    have "n - j < n" using that by simp
    then show ?thesis using nth [of "n - j"] by (simp add: nth_append n_def)
  qed
  have "schedule_eq ws' n"
    unfolding schedule_eq_def last w(4)
    using n16 by (simp add: prev)
  then have rec: "\<forall>t. n \<le> t \<and> t < m \<longrightarrow> schedule_eq ws' t"
    using ws'(6) by (metis le_antisym not_less_eq_eq)
  have "forEachM [n..<m] (scheduleStep p) (map Some ws) = Inr (map Some ws')"
    using lt ws'(1) by (simp add: upt_conv_Cons w(1) andThen_Inr)
  moreover have "map w32 ws' = fold ref_scheduleStep [n..<m] (map w32 ws)"
    using lt by (simp only: upt_conv_Cons fold_Cons comp_apply ws'(4) w(3))
  moreover have "length ws' = max n m" using lt ws'(3) by simp
  ultimately show ?case using ws'(2) pre rec unfolding n_def by blast
qed

lemma messageSchedule_ok:
  assumes p: "2 ^ 35 \<le> p" and M: "list_all wf32 M" "16 \<le> length M"
  shows "\<exists>ws. messageSchedule p M = Inr (map Some ws) \<and> list_all wf32 ws \<and> length ws = 64 \<and>
     map w32 ws = ref_schedule (map w32 M) \<and> take 16 ws = take 16 M \<and>
     (\<forall>t. 16 \<le> t \<and> t < 64 \<longrightarrow> schedule_eq ws t)"
proof -
  have wf: "list_all wf32 (take 16 M)"
    using M(1) by (auto simp add: list_all_iff dest: in_set_takeD)
  have len: "length (take 16 M) = 16" using M(2) by simp
  from schedule_loop [OF p wf, of 64 48] len
  show ?thesis
    using M(2) by (simp add: messageSchedule_def ref_schedule_def copyBlock_Some take_map)
qed

lemma K_numbers_range: "list_all (\<lambda>k. 0 \<le> k \<and> k < 2 ^ 32) K_numbers"
  by (simp add: K_numbers_def)

lemma length_K_numbers: "length K_numbers = 64"
  by (simp add: K_numbers_def)

lemma K_numbers_ends: "K_numbers ! 0 = 0x428a2f98" "K_numbers ! 63 = 0xc67178f2"
  by (simp_all add: K_numbers_def)

lemma K_ok:
  assumes "t < 64"
  shows "wf32 (K ! t)" and "w32 (K ! t) = ref_K ! t"
  using assms K_numbers_range
  by (simp_all add: K_def ref_K_def length_K_numbers wf32_def w32_def list_all_length)

lemma H_numbers_range: "list_all (\<lambda>k. 0 \<le> k \<and> k < 2 ^ 32) H_numbers"
  by (simp add: H_numbers_def)

lemma length_H_numbers: "length H_numbers = 8"
  by (simp add: H_numbers_def)

lemma roundStep_ok:
  assumes p: "2 ^ 35 \<le> p" and ws: "list_all wf32 ws" and t: "t < 64" "t < length ws"
    and s: "wf_working s"
  shows "\<exists>s'. roundStep p (map Some ws) t s = Inr s' \<and> wf_working s' \<and>
     w32_working s' = ref_round (map w32 ws) t (w32_working s)"
proof -
  obtain a b c d e f g h where s_eq: "s = (a, b, c, d, e, f, g, h)"
    by (cases s) auto
  have wf: "wf32 a" "wf32 b" "wf32 c" "wf32 d" "wf32 e" "wf32 f" "wf32 g" "wf32 h"
    using s by (simp_all add: wf_working_def s_eq)
  have p32: "(2::int) ^ 32 \<le> p" using p by simp
  define s1 where "s1 = projr (SigmaOne p e)"
  define ch where "ch = projr (Ch e f g)"
  define wt where "wt = ws ! t"
  define s0 where "s0 = projr (SigmaZero p a)"
  define maj where "maj = projr (Maj a b c)"
  have x: "wf32 s1" "wf32 ch" "wf32 wt" "wf32 s0" "wf32 maj" "wf32 (K ! t)"
      "w32 s1 = ref_Sigma1 (w32 e)" "w32 ch = ref_Ch (w32 e) (w32 f) (w32 g)"
      "w32 s0 = ref_Sigma0 (w32 a)" "w32 maj = ref_Maj (w32 a) (w32 b) (w32 c)"
      "w32 (K ! t) = ref_K ! t"
    using wf ws t p32
    by (simp_all add: s1_def ch_def wt_def s0_def maj_def word_ok SigmaOne_ok SigmaZero_ok
        Ch_ok Maj_ok K_ok list_all_length)
  define T1 where "T1 = Field_add p (Field_add p (Field_add p (Field_add p (val h) (val s1))
      (val ch)) (val (K ! t))) (val wt)"
  define T2 where "T2 = Field_add p (val s0) (val maj)"
  have p': "2 ^ 32 + 2 ^ 32 \<le> p" "(2 ^ 32 + 2 ^ 32) + 2 ^ 32 \<le> p"
    "((2 ^ 32 + 2 ^ 32) + 2 ^ 32) + 2 ^ 32 \<le> p"
    "(((2 ^ 32 + 2 ^ 32) + 2 ^ 32) + 2 ^ 32) + 2 ^ 32 \<le> p"
    "2 ^ 32 + ((((2 ^ 32 + 2 ^ 32) + 2 ^ 32) + 2 ^ 32) + 2 ^ 32) \<le> p"
    "(2 ^ 32 + 2 ^ 32) + ((((2 ^ 32 + 2 ^ 32) + 2 ^ 32) + 2 ^ 32) + 2 ^ 32) \<le> p"
    using p by simp_all
  note a1 = Field_add_bounded [OF wf32_bounds [OF wf(8)] wf32_bounds [OF x(1)] p'(1)]
  note a2 = Field_add_bounded [OF a1(2,3) wf32_bounds [OF x(2)] p'(2)]
  note a3 = Field_add_bounded [OF a2(2,3) wf32_bounds [OF x(6)] p'(3)]
  note a4 = Field_add_bounded [OF a3(2,3) wf32_bounds [OF x(3)] p'(4)]
  note b1 = Field_add_bounded [OF wf32_bounds [OF x(4)] wf32_bounds [OF x(5)] p'(1)]
  note c1 = Field_add_bounded [OF wf32_bounds [OF wf(4)] a4(2,3) p'(5), folded T1_def]
  note c2 = Field_add_bounded [OF b1(2,3) a4(2,3) p'(6), folded T1_def T2_def]
  have T1: "toBigInt T1 = toBigInt (val h) + toBigInt (val s1) + toBigInt (val ch)
      + toBigInt (val (K ! t)) + toBigInt (val wt)"
    using a1 a2 a3 a4 by (simp add: T1_def)
  have T2: "toBigInt T2 = toBigInt (val s0) + toBigInt (val maj)"
    using b1 by (simp add: T2_def)
  have r1: "0 \<le> toBigInt (Field_add p (val d) T1)" "toBigInt (Field_add p (val d) T1) < 2 ^ 64"
    using c1 by simp_all
  have r2: "0 \<le> toBigInt (Field_add p T2 T1)" "toBigInt (Field_add p T2 T1) < 2 ^ 64"
    using c2 by simp_all
  define e' where "e' = UInt32 (mkField (isConstant (Field_add p (val d) T1))
      (take_bit 32 (toBigInt (Field_add p (val d) T1))))"
  define a' where "a' = UInt32 (mkField (isConstant (Field_add p T2 T1))
      (take_bit 32 (toBigInt (Field_add p T2 T1))))"
  have step: "roundStep p (map Some ws) t s = Inr (a', a, b, c, e', e, f, g)"
    using wf p32 t
    by (simp add: roundStep_def s_eq andThen_Inr word_ok SigmaOne_ok SigmaZero_ok Ch_ok Maj_ok
        js_get_Some Let_def reduce32 [OF r1] reduce32 [OF r2] e'_def a'_def
        flip: s1_def ch_def wt_def s0_def maj_def T1_def T2_def)
  have "w32 e' = word_of_int (toBigInt (Field_add p (val d) T1))"
    by (simp add: e'_def w32_take_bit)
  also have "\<dots> = w32 d + (w32 h + w32 s1 + w32 ch + w32 (K ! t) + w32 wt)"
    by (simp add: c1(1) T1 w32_def)
  finally have e': "w32 e' = w32 d + (w32 h + ref_Sigma1 (w32 e) + ref_Ch (w32 e) (w32 f) (w32 g)
      + ref_K ! t + map w32 ws ! t)"
    using x t by (simp add: wt_def)
  have "w32 a' = word_of_int (toBigInt (Field_add p T2 T1))"
    by (simp add: a'_def w32_take_bit)
  also have "\<dots> = (w32 s0 + w32 maj) + (w32 h + w32 s1 + w32 ch + w32 (K ! t) + w32 wt)"
    by (simp add: c2(1) T1 T2 w32_def)
  finally have a': "w32 a' = (w32 h + ref_Sigma1 (w32 e) + ref_Ch (w32 e) (w32 f) (w32 g)
      + ref_K ! t + map w32 ws ! t) + (ref_Sigma0 (w32 a) + ref_Maj (w32 a) (w32 b) (w32 c))"
    using x t by (simp add: wt_def)
  have "wf_working (a', a, b, c, e', e, f, g)"
    using wf by (simp add: wf_working_def e'_def a'_def wf32_take_bit)
  moreover have "w32_working (a', a, b, c, e', e, f, g) = ref_round (map w32 ws) t (w32_working s)"
    by (simp add: w32_working_def ref_round_def s_eq Let_def e' a')
  ultimately show ?thesis using step by blast
qed

lemma rounds_loop:
  assumes p: "2 ^ 35 \<le> p" and ws: "list_all wf32 ws"
  shows "\<forall>t\<in>set ts. t < 64 \<and> t < length ws \<Longrightarrow> wf_working s \<Longrightarrow>
     \<exists>s'. forEachM ts (roundStep p (map Some ws)) s = Inr s' \<and> wf_working s' \<and>
       w32_working s' = fold (ref_round (map w32 ws)) ts (w32_working s)"
proof (induction ts arbitrary: s)
  case Nil
  then show ?case by simp
next
  case (Cons t ts)
  then have t: "t < 64" "t < length ws" by simp_all
  obtain s1 where s1: "roundStep p (map Some ws) t s = Inr s1" "wf_working s1"
      "w32_working s1 = ref_round (map w32 ws) t (w32_working s)"
    using roundStep_ok [OF p ws t Cons.prems(2)] by blast
  obtain s' where "forEachM ts (roundStep p (map Some ws)) s1 = Inr s'" "wf_working s'"
      "w32_working s' = fold (ref_round (map w32 ws)) ts (w32_working s1)"
    using Cons.IH [of s1] Cons.prems(1) s1(2) by auto
  then show ?case
    by (intro exI [of _ s']) (simp add: s1 andThen_Inr)
qed

lemma addMod32_ok:
  assumes p: "2 ^ 35 \<le> p" and "wf32 x" "wf32 y"
  shows "ok32 (UInt32_addMod32 p x y)" and "out32 (UInt32_addMod32 p x y) = w32 x + w32 y"
proof -
  have p': "(2::int) ^ 32 + 2 ^ 32 \<le> p" using p by simp
  note a = Field_add_bounded [OF wf32_bounds [OF assms(2)] wf32_bounds [OF assms(3)] p']
  have r: "0 \<le> toBigInt (Field_add p (val x) (val y))"
    "toBigInt (Field_add p (val x) (val y)) < 2 ^ 64"
    using a by simp_all
  have eq: "UInt32_addMod32 p x y = Inr (UInt32 (mkField (isConstant (Field_add p (val x) (val y)))
      (take_bit 32 (toBigInt (Field_add p (val x) (val y))))))"
    by (simp add: UInt32_addMod32_def divMod32_eq [OF r] andThen_Inr remainder_def
        UInt32_from_take_bit)
  show "ok32 (UInt32_addMod32 p x y)"
    by (simp add: eq ok32_Inr wf32_take_bit)
  show "out32 (UInt32_addMod32 p x y) = w32 x + w32 y"
    by (simp add: eq out32_Inr w32_take_bit a(1)) (simp add: w32_def)
qed

lemma processBlock_ok:
  assumes p: "2 ^ 35 \<le> p" and H: "length H = 8" "list_all wf32 H"
    and M: "list_all wf32 M" "16 \<le> length M"
  shows "\<exists>H'. processBlock p H M = Inr H' \<and> length H' = 8 \<and> list_all wf32 H' \<and>
     map w32 H' = ref_compress (map w32 H) (map w32 M)"
proof -
  obtain ws where ws: "messageSchedule p M = Inr (map Some ws)" "list_all wf32 ws"
      "length ws = 64" "map w32 ws = ref_schedule (map w32 M)"
    using messageSchedule_ok [OF p M] by blast
  have Hwf: "wf32 (H ! 0)" "wf32 (H ! 1)" "wf32 (H ! 2)" "wf32 (H ! 3)"
      "wf32 (H ! 4)" "wf32 (H ! 5)" "wf32 (H ! 6)" "wf32 (H ! 7)"
    using H by (simp_all add: list_all_length)
  define s0 where "s0 = (H ! 0, H ! 1, H ! 2, H ! 3, H ! 4, H ! 5, H ! 6, H ! 7)"
  have s0: "wf_working s0" using Hwf by (simp add: wf_working_def s0_def)
  have "\<forall>t\<in>set [0..<64]. t < 64 \<and> t < length ws" using ws(3) by simp
  from rounds_loop [OF p ws(2) this s0]
  obtain s' where s': "forEachM [0..<64] (roundStep p (map Some ws)) s0 = Inr s'"
      "wf_working s'"
      "w32_working s' = fold (ref_round (map w32 ws)) [0..<64] (w32_working s0)"
    by blast
  obtain a b c d e f g h where s_eq: "s' = (a, b, c, d, e, f, g, h)"
    by (cases s') auto
  have wf: "wf32 a" "wf32 b" "wf32 c" "wf32 d" "wf32 e" "wf32 f" "wf32 g" "wf32 h"
    using s'(2) by (simp_all add: wf_working_def s_eq)
  have fold_eq: "fold (ref_round (ref_schedule (map w32 M))) [0..<64]
      (map w32 H ! 0, map w32 H ! 1, map w32 H ! 2, map w32 H ! 3,
       map w32 H ! 4, map w32 H ! 5, map w32 H ! 6, map w32 H ! 7)
     = (w32 a, w32 b, w32 c, w32 d, w32 e, w32 f, w32 g, w32 h)"
    using s'(3) H(1) by (simp add: ws(4) s_eq w32_working_def s0_def)
  define H' where "H' = [projr (UInt32_addMod32 p (H ! 0) a), projr (UInt32_addMod32 p (H ! 1) b),
      projr (UInt32_addMod32 p (H ! 2) c), projr (UInt32_addMod32 p (H ! 3) d),
      projr (UInt32_addMod32 p (H ! 4) e), projr (UInt32_addMod32 p (H ! 5) f),
      projr (UInt32_addMod32 p (H ! 6) g), projr (UInt32_addMod32 p (H ! 7) h)]"
  have run: "forEachM [0..<64] (roundStep p (map Some ws))
      (H ! 0, H ! 1, H ! 2, H ! 3, H ! 4, H ! 5, H ! 6, H ! 7) = Inr (a, b, c, d, e, f, g, h)"
    using s'(1) by (simp only: s0_def s_eq)
  have "processBlock p H M = Inr H'"
    unfolding processBlock_def ws(1) andThen_Inr run prod.case
    using Hwf wf by (simp add: H'_def addMod32_ok [OF p] ok32_andThen)
  moreover have "list_all wf32 H'"
    using Hwf wf by (simp add: H'_def addMod32_ok [OF p] ok32_wf)
  moreover have "map w32 H' = ref_compress (map w32 H) (map w32 M)"
    unfolding ref_compress_def fold_eq
    using Hwf wf H(1) by (simp add: H'_def w32_projr addMod32_ok [OF p])
  ultimately show ?thesis by (intro exI [of _ H']) (simp add: H'_def)
qed

lemma hashBlocks_ok:
  assumes p: "2 ^ 35 \<le> p"
  shows "\<forall>M\<in>set data. length M = 16 \<and> list_all wf32 M \<Longrightarrow> length H = 8 \<Longrightarrow> list_all wf32 H \<Longrightarrow>
     \<exists>H'. hashBlocks p H data = Inr H' \<and> length H' = 8 \<and> list_all wf32 H' \<and>
       map w32 H' = foldl ref_compress (map w32 H) (map (map w32) data)"
proof (induction data arbitrary: H)
  case Nil
  then show ?case by simp
next
  case (Cons M data)
  then have M: "list_all wf32 M" "16 \<le> length M" by simp_all
  obtain H1 where H1: "processBlock p H M = Inr H1" "length H1 = 8" "list_all wf32 H1"
      "map w32 H1 = ref_compress (map w32 H) (map w32 M)"
    using processBlock_ok [OF p Cons.prems(2,3) M] by blast
  obtain H' where "hashBlocks p H1 data = Inr H'" "length H' = 8" "list_all wf32 H'"
      "map w32 H' = foldl ref_compress (map w32 H1) (map (map w32) data)"
    using Cons.IH [of H1] Cons.prems(1) H1(2,3) by auto
  then show ?case
    by (intro exI [of _ H']) (simp add: H1 andThen_Inr)
qed

lemma H_initial_ok: "length H_initial = 8" "list_all wf32 H_initial" "map w32 H_initial = ref_H0"
  using H_numbers_range
  by (simp_all add: H_initial_def ref_H0_def length_H_numbers wf32_def w32_def list_all_iff)

text \<open>
  The reference on the padded one-block message \<open>abc\<close> gives the digest published with
  FIPS 180-4.
\<close>

lemma ref_SHA256_abc: "ref_SHA256 [map word_of_int abc_block] = map word_of_int abc_digest"
  by code_simp

text \<open>
  Claim C1.  For every sequence of message blocks of 16 words each, every word a 32-bit
  quantity and each one a constant or a variable, \<open>SHA256.hash\<close> returns eight words, and
  they are the SHA-256 digest of the block sequence as the reference computes it.  For
  every block the message schedule has 64 words, the first 16 are the words of the block,
  and every later word is the sum modulo \<open>2^32\<close> (the addition of 32-bit words) of
  \<open>\<delta>1(W[t-2])\<close>, \<open>W[t-7]\<close>, \<open>\<delta>0(W[t-15])\<close> and \<open>W[t-16]\<close>.
\<close>

theorem SHA256_hash_is_SHA256:
  assumes p: "2 ^ 35 \<le> p" and blocks: "\<forall>M\<in>set data. length M = 16 \<and> list_all wf32 M"
  shows "(\<exists>digest. SHA256_hash p data = Inr digest \<and> length digest = 8 \<and> list_all wf32 digest \<and>
            map w32 digest = ref_SHA256 (map (map w32) data))
       \<and> (\<forall>M\<in>set data. \<exists>W. messageSchedule p M = Inr (map Some W) \<and> length W = 64 \<and>
            take 16 W = M \<and>
            (\<forall>t. 16 \<le> t \<and> t < 64 \<longrightarrow>
               w32 (W ! t) = ref_sigma1 (w32 (W ! (t - 2))) + w32 (W ! (t - 7))
                           + ref_sigma0 (w32 (W ! (t - 15))) + w32 (W ! (t - 16))))"
proof
  show "\<exists>digest. SHA256_hash p data = Inr digest \<and> length digest = 8 \<and> list_all wf32 digest \<and>
            map w32 digest = ref_SHA256 (map (map w32) data)"
    using hashBlocks_ok [OF p blocks H_initial_ok(1,2)]
    by (simp add: SHA256_hash_def ref_SHA256_def H_initial_ok(3))
  show "\<forall>M\<in>set data. \<exists>W. messageSchedule p M = Inr (map Some W) \<and> length W = 64 \<and>
            take 16 W = M \<and>
            (\<forall>t. 16 \<le> t \<and> t < 64 \<longrightarrow>
               w32 (W ! t) = ref_sigma1 (w32 (W ! (t - 2))) + w32 (W ! (t - 7))
                           + ref_sigma0 (w32 (W ! (t - 15))) + w32 (W ! (t - 16)))"
  proof
    fix M assume "M \<in> set data"
    with blocks have M: "list_all wf32 M" "16 \<le> length M" "length M = 16" by simp_all
    from messageSchedule_ok [OF p M(1,2)] M(3)
    show "\<exists>W. messageSchedule p M = Inr (map Some W) \<and> length W = 64 \<and>
            take 16 W = M \<and>
            (\<forall>t. 16 \<le> t \<and> t < 64 \<longrightarrow>
               w32 (W ! t) = ref_sigma1 (w32 (W ! (t - 2))) + w32 (W ! (t - 7))
                           + ref_sigma0 (w32 (W ! (t - 15))) + w32 (W ! (t - 16)))"
      by (auto simp add: schedule_eq_def)
  qed
qed

theorem SHA256_hash_is_SHA256_witness:
  "\<exists>digest. SHA256_hash pallas_p [map (\<lambda>k. UInt32 (Var k)) abc_block] = Inr digest \<and>
     map w32 digest = map word_of_int abc_digest"
proof -
  have b: "\<forall>M\<in>set [map (\<lambda>k. UInt32 (Var k)) abc_block]. length M = 16 \<and> list_all wf32 M"
    by (simp add: abc_block_def wf32_def)
  have p: "2 ^ 35 \<le> pallas_p" by (simp add: pallas_p_def)
  have m: "map (map w32) [map (\<lambda>k. UInt32 (Var k)) abc_block] = [map word_of_int abc_block]"
    by (simp add: abc_block_def w32_def)
  from SHA256_hash_is_SHA256 [OF p b, unfolded m ref_SHA256_abc] show ?thesis
    by blast
qed

section \<open>The shifted scalar\<close>

lemma Field_lin_exact:
  assumes "0 \<le> toBigInt x" "0 \<le> toBigInt y" "0 \<le> k" "k < p" "toBigInt x + toBigInt y * k < p"
  shows "toBigInt (Field_add p x (Field_mul_number p y k)) = toBigInt x + toBigInt y * k"
  using lin_exact [OF assms] by (simp add: toBigInt_Field_add toBigInt_Field_mul_number)

lemma bit_bigint_eq: "0 \<le> i \<Longrightarrow> bit_bigint x i = (x div 2 ^ nat i) mod 2"
  by (simp add: bit_bigint_def bigint_shr_def drop_bit_eq_div and_one_eq)

lemma bit_bigint_01: "0 \<le> i \<Longrightarrow> bit_bigint x i = 0 \<or> bit_bigint x i = 1"
  by (auto simp add: bit_bigint_eq)

lemma mod_double: "0 \<le> n \<Longrightarrow> (y::int) mod (2 * n) = y mod 2 + 2 * ((y div 2) mod n)"
  using zmod_zmult2_eq [of n y 2] by simp
lemma five_bits:
  fixes x :: int
  shows "x mod 2 + 2 * (x div 2 mod 2) + 4 * (x div 4 mod 2) + 8 * (x div 8 mod 2)
         + 16 * (x div 16 mod 2) = x mod 32"
proof -
  have h: "x div 2 div 2 = x div 4" "x div 4 div 2 = x div 8" "x div 8 div 2 = x div 16"
    using zdiv_zmult2_eq [of 2 x 2] zdiv_zmult2_eq [of 2 x 4] zdiv_zmult2_eq [of 2 x 8]
    by simp_all
  have a: "x mod 32 = x mod 2 + 2 * ((x div 2) mod 16)"
    using mod_double [of 16 x] by simp
  have b: "(x div 2) mod 16 = (x div 2) mod 2 + 2 * ((x div 4) mod 8)"
    using mod_double [of 8 "x div 2"] by (simp add: h)
  have c: "(x div 4) mod 8 = (x div 4) mod 2 + 2 * ((x div 8) mod 4)"
    using mod_double [of 4 "x div 4"] by (simp add: h)
  have d: "(x div 8) mod 4 = (x div 8) mod 2 + 2 * ((x div 16) mod 2)"
    using mod_double [of 2 "x div 8"] by (simp add: h)
  show ?thesis unfolding a b c d by (simp add: algebra_simps)
qed

lemma packBits5:
  assumes p: "32 \<le> p"
    and b: "toBigInt b0 = 0 \<or> toBigInt b0 = 1" "toBigInt b1 = 0 \<or> toBigInt b1 = 1"
      "toBigInt b2 = 0 \<or> toBigInt b2 = 1" "toBigInt b3 = 0 \<or> toBigInt b3 = 1"
      "toBigInt b4 = 0 \<or> toBigInt b4 = 1"
  shows "toBigInt (packBits p [b0, b1, b2, b3, b4])
     = toBigInt b0 + 2 * toBigInt b1 + 4 * toBigInt b2 + 8 * toBigInt b3 + 16 * toBigInt b4"
proof -
  define z where "z = createField p 0"
  have z: "toBigInt z = 0" by (simp add: z_def createField_def)
  define a0 where "a0 = Field_add p z (Field_mul_number p b0 1)"
  define a1 where "a1 = Field_add p a0 (Field_mul_number p b1 2)"
  define a2 where "a2 = Field_add p a1 (Field_mul_number p b2 4)"
  define a3 where "a3 = Field_add p a2 (Field_mul_number p b3 8)"
  define a4 where "a4 = Field_add p a3 (Field_mul_number p b4 16)"
  have e0: "toBigInt a0 = toBigInt b0"
    unfolding a0_def using Field_lin_exact [of z b0 1 p] b p z by auto
  have e1: "toBigInt a1 = toBigInt b0 + 2 * toBigInt b1"
    unfolding a1_def using Field_lin_exact [of a0 b1 2 p] b p e0 by auto
  have e2: "toBigInt a2 = toBigInt b0 + 2 * toBigInt b1 + 4 * toBigInt b2"
    unfolding a2_def using Field_lin_exact [of a1 b2 4 p] b p e1 by auto
  have e3: "toBigInt a3 = toBigInt b0 + 2 * toBigInt b1 + 4 * toBigInt b2 + 8 * toBigInt b3"
    unfolding a3_def using Field_lin_exact [of a2 b3 8 p] b p e2 by auto
  have e4: "toBigInt a4 = toBigInt b0 + 2 * toBigInt b1 + 4 * toBigInt b2 + 8 * toBigInt b3
      + 16 * toBigInt b4"
    unfolding a4_def using Field_lin_exact [of a3 b4 16 p] b p e3 by auto
  have "packBits p [b0, b1, b2, b3, b4] = a4"
    by (simp add: packBits_def seal_def bigint_shl_def
        a4_def a3_def a2_def a1_def a0_def z_def)
  then show ?thesis using e4 by simp
qed

lemma low5_bits_value:
  "bit_bigint x 0 + 2 * bit_bigint x 1 + 4 * bit_bigint x 2 + 8 * bit_bigint x 3
     + 16 * bit_bigint x 4 = x mod 32"
  using five_bits [of x] by (simp add: bit_bigint_eq)

lemma createField_small: "0 \<le> v \<Longrightarrow> v < p \<Longrightarrow> createField p v = Constant v"
  by (simp add: createField_def mod_pos_pos_trivial)

lemma split3_facts:
  assumes t: "0 \<le> t" "t < 2 ^ 255"
  obtains t0 t1 t2 where "split3 t = (t0, t1, t2)"
    "0 \<le> t0" "t0 < 2 ^ 88" "0 \<le> t1" "t1 < 2 ^ 88" "0 \<le> t2" "t2 < 2 ^ 79"
    "t = t0 + t1 * 2 ^ 88 + t2 * 2 ^ 176"
proof -
  define t0 where "t0 = t mod 2 ^ 88"
  define t1 where "t1 = (t div 2 ^ 88) mod 2 ^ 88"
  define t2 where "t2 = t div 2 ^ 176"
  have d: "t div 2 ^ 88 div 2 ^ 88 = t div 2 ^ 176"
    using zdiv_zmult2_eq [of "2 ^ 88" t "2 ^ 88"] by simp
  have lt: "t2 < 2 ^ 79"
    unfolding t2_def using t by (intro div_less_of_less_mult) simp_all
  have ge: "0 \<le> t2" unfolding t2_def using t by (simp add: pos_imp_zdiv_nonneg_iff)
  have "t2 mod 2 ^ 88 = t2" using lt ge by (simp add: mod_pos_pos_trivial)
  then have sp: "split3 t = (t0, t1, t2)"
    by (simp add: split3_def l_bits_def take_bit_eq_mod drop_bit_eq_div t0_def t1_def t2_def)
  have "t = t0 + (t div 2 ^ 88) * 2 ^ 88" unfolding t0_def by (simp only: mod_div_mult_eq)
  moreover have "t div 2 ^ 88 = t1 + t2 * 2 ^ 88"
    unfolding t1_def t2_def d [symmetric] by (simp only: mod_div_mult_eq)
  ultimately have eq: "t = t0 + t1 * 2 ^ 88 + t2 * 2 ^ 176" by (simp add: algebra_simps)
  show ?thesis
    by (rule that [OF sp _ _ _ _ ge lt eq]) (simp_all add: t0_def t1_def)
qed

lemma div32_limbs:
  fixes t0 t1 t2 :: int
  shows "(t0 + t1 * 2 ^ 88 + t2 * 2 ^ 176) div 32 = t0 div 32 + t1 * 2 ^ 83 + t2 * 2 ^ 171"
    and "(t0 + t1 * 2 ^ 88 + t2 * 2 ^ 176) mod 32 = t0 mod 32"
proof -
  have e: "t0 + t1 * 2 ^ 88 + t2 * 2 ^ 176 = t0 + (t1 * 2 ^ 83 + t2 * 2 ^ 171) * 32"
    by simp
  have m: "(t0 + u * 32) mod 32 = t0 mod 32" for u :: int by simp
  have d: "(t0 + u * 32) div 32 = t0 div 32 + u" for u :: int by simp
  show "(t0 + t1 * 2 ^ 88 + t2 * 2 ^ 176) div 32 = t0 div 32 + t1 * 2 ^ 83 + t2 * 2 ^ 171"
    unfolding e d by (simp only: add.assoc)
  show "(t0 + t1 * 2 ^ 88 + t2 * 2 ^ 176) mod 32 = t0 mod 32"
    unfolding e m ..
qed

lemma assertBool_bit: "0 \<le> i \<Longrightarrow> assertBool (Var (bit_bigint x i)) = Inr (Bool (Var (bit_bigint x i)))"
  using bit_bigint_01 [of i x] by (auto simp add: assertBool_def)

lemma twoTo254: "Field3_toBigint (Field3_from (bigint_shl 1 254)) = 2 ^ 254"
  by (simp add: Field3_toBigint_def Field3_from_def split3_def bigint_shl_def l_bits_def
      take_bit_eq_mod drop_bit_eq_div push_bit_eq_mult)

lemma shifted_scalar_range:
  fixes x q :: int
  assumes "0 < q" "q \<le> 2 ^ 255"
  shows "0 \<le> x mod q" "x mod q < 2 ^ 255" "0 \<le> (x mod q) div 32" "(x mod q) div 32 < 2 ^ 250"
proof -
  show a: "0 \<le> x mod q" using assms by simp
  have "x mod q < q" using assms by simp
  then show b: "x mod q < 2 ^ 255" using assms(2) by linarith
  show "0 \<le> (x mod q) div 32" using a by (simp add: pos_imp_zdiv_nonneg_iff)
  show "(x mod q) div 32 < 2 ^ 250" using b by (intro div_less_of_less_mult) simp_all
qed

lemma field3ToShiftedScalar_constant:
  assumes q: "0 < q" "q \<le> 2 ^ 255" and p: "2 ^ 250 \<le> p" and c: "Field3_isConstant s"
  defines "t \<equiv> (Field3_toBigint s - 2 ^ 254) mod q"
  shows "field3ToShiftedScalar p q sub s
     = Inr (ShiftedScalar (toBits5 (Constant (t mod 32))) (Constant (t div 32)))"
proof -
  note r = shifted_scalar_range [OF q, of "Field3_toBigint s - 2 ^ 254", folded t_def]
  have "t AND 31 = t mod 32"
    using take_bit_eq_mask [of 5 t] by (simp add: take_bit_eq_mod mask_eq_exp_minus_1)
  moreover have "0 \<le> t mod 32" "t mod 32 < p" using p by simp_all
  moreover have "t div 32 < p" using r(4) p by simp
  ultimately show ?thesis
    using c r(3)
    by (simp add: field3ToShiftedScalar_def Fq_mod_def bigint_shl_def bigint_shr_def Let_def
        createField_small drop_bit_eq_div t_def)
qed

lemma low5_value_toBits5: "low5_value (toBits5 (Constant x)) = x mod 32"
  using low5_bits_value [of x] by (simp add: low5_value_def toBits5_def)

lemma low5_boolean_toBits5: "low5_boolean (toBits5 x)"
  using bit_bigint_01 [of 0] bit_bigint_01 [of 1] bit_bigint_01 [of 2] bit_bigint_01 [of 3]
    bit_bigint_01 [of 4]
  by (simp add: low5_boolean_def toBits5_def)

lemma shl_values:
  "bigint_shl 1 5 = 32" "bigint_shl 1 (int l_bits - 5) = 2 ^ 83"
  "bigint_shl 1 (2 * int l_bits - 5) = 2 ^ 171" "bigint_shr t 5 = t div 32"
  by (simp_all add: bigint_shl_def bigint_shr_def l_bits_def drop_bit_eq_div)

lemma assertBool_Inr_iff:
  "assertBool x = Inr c \<longleftrightarrow> (toBigInt x = 0 \<or> toBigInt x = 1) \<and> c = Bool x"
  by (auto simp add: assertBool_def)

text \<open>What the constraints of the variable case say about the assigned values.\<close>

lemma field3ToShiftedScalar_constrain_Inr_iff:
  "field3ToShiftedScalar_constrain p (t0, t1, t2) (b0, b1, b2, b3, b4) tHi0 = Inr T \<longleftrightarrow>
     (toBigInt b0 = 0 \<or> toBigInt b0 = 1) \<and> (toBigInt b1 = 0 \<or> toBigInt b1 = 1) \<and>
     (toBigInt b2 = 0 \<or> toBigInt b2 = 1) \<and> (toBigInt b3 = 0 \<or> toBigInt b3 = 1) \<and>
     (toBigInt b4 = 0 \<or> toBigInt b4 = 1) \<and>
     toBigInt (Field_add p (packBits p [b0, b1, b2, b3, b4]) (Field_mul_number p tHi0 32))
       = toBigInt t0 \<and>
     T = ShiftedScalar (Bool b0, Bool b1, Bool b2, Bool b3, Bool b4)
           (Field_add p (Field_add p tHi0 (Field_mul_number p t1 (2 ^ 83)))
              (Field_mul_number p t2 (2 ^ 171)))"
  unfolding field3ToShiftedScalar_constrain_def prod.case shl_values Let_def seal_def
    andThen_Inr_iff assertBool_Inr_iff assertEquals_Inr_iff
  by auto

lemma field3ToShiftedScalar_constrain_boolean:
  assumes "field3ToShiftedScalar_constrain p t tLo tHi0 = Inr T"
  shows "low5_boolean (low5 T)"
proof -
  obtain t0 t1 t2 where t: "t = (t0, t1, t2)" by (cases t)
  obtain b0 b1 b2 b3 b4 where b: "tLo = (b0, b1, b2, b3, b4)" by (cases tLo)
  show ?thesis
    using assms unfolding t b field3ToShiftedScalar_constrain_Inr_iff
    by (simp add: low5_boolean_def)
qed

lemma field3ToShiftedScalar_constrain_mod:
  assumes a: "field3ToShiftedScalar_constrain p (t0, t1, t2) tLo tHi0 = Inr T" and p: "32 \<le> p"
  shows "scalar_of T mod p = (toBigInt t0 + toBigInt t1 * 2 ^ 88 + toBigInt t2 * 2 ^ 176) mod p"
proof -
  obtain b0 b1 b2 b3 b4 where b: "tLo = (b0, b1, b2, b3, b4)" by (cases tLo)
  note c = a [unfolded b field3ToShiftedScalar_constrain_Inr_iff]
  define lo where "lo = toBigInt b0 + 2 * toBigInt b1 + 4 * toBigInt b2 + 8 * toBigInt b3
      + 16 * toBigInt b4"
  have pk: "toBigInt (packBits p [b0, b1, b2, b3, b4]) = lo"
    unfolding lo_def using c by (intro packBits5 [OF p]) simp_all
  have lv: "low5_value (low5 T) = lo" using c by (simp add: low5_value_def lo_def)
  define h where "h = toBigInt tHi0"
  have split: "(lo + h * 32) mod p = toBigInt t0"
    using c pk
    by (simp add: toBigInt_Field_add toBigInt_Field_mul_number h_def mod_simps)
  have hi: "toBigInt (high250 T) = (h + toBigInt t1 * 2 ^ 83 + toBigInt t2 * 2 ^ 171) mod p"
    using c by (simp add: toBigInt_Field_add toBigInt_Field_mul_number h_def mod_simps)
  have strip: "(lo + (X mod p) * 32) mod p = (lo + X * 32) mod p" for X
  proof -
    have "(lo + (X mod p) * 32) mod p = (lo + ((X mod p) * 32) mod p) mod p"
      by (simp only: mod_add_right_eq)
    also have "\<dots> = (lo + (X * 32) mod p) mod p" by (simp only: mod_mult_left_eq)
    also have "\<dots> = (lo + X * 32) mod p" by (simp only: mod_add_right_eq)
    finally show ?thesis .
  qed
  have e: "(2::int) ^ 5 = 32" by simp
  have "scalar_of T mod p = (lo + (h + toBigInt t1 * 2 ^ 83 + toBigInt t2 * 2 ^ 171) * 32) mod p"
    unfolding scalar_of_def lv hi e by (rule strip)
  also have "\<dots> = ((lo + h * 32) + toBigInt t1 * 2 ^ 88 + toBigInt t2 * 2 ^ 176) mod p"
    by (simp add: algebra_simps)
  also have "\<dots> = ((lo + h * 32) mod p + toBigInt t1 * 2 ^ 88 + toBigInt t2 * 2 ^ 176) mod p"
    using mod_add_left_eq [of "lo + h * 32" p "toBigInt t1 * 2 ^ 88 + toBigInt t2 * 2 ^ 176"]
    by (simp only: add.assoc)
  finally show ?thesis unfolding split .
qed

text \<open>
  The run of the variable case on the values the prover computes, for a subtraction whose
  result has a low limb of 88 bits and stands for an integer below \<open>2^255\<close>.
\<close>

lemma field3ToShiftedScalar_honest:
  assumes p: "2 ^ 250 \<le> p" and c: "\<not> Field3_isConstant s"
    and sub: "sub s (Field3_from (bigint_shl 1 254)) q = (x0, x1, x2)"
    and b: "0 \<le> toBigInt x0" "toBigInt x0 < 2 ^ 88" "0 \<le> toBigInt x1" "0 \<le> toBigInt x2"
    and r: "toBigInt x0 + toBigInt x1 * 2 ^ 88 + toBigInt x2 * 2 ^ 176 < 2 ^ 255"
  shows "\<exists>T. field3ToShiftedScalar p q sub s = Inr T \<and> low5_boolean (low5 T) \<and>
     scalar_of T = toBigInt x0 + toBigInt x1 * 2 ^ 88 + toBigInt x2 * 2 ^ 176 \<and>
     0 \<le> toBigInt (high250 T) \<and> toBigInt (high250 T) < 2 ^ 250 \<and>
     toBigInt x0 div 2 ^ 5 < 2 ^ 83 \<and>
     toBigInt (high250 T)
       = toBigInt x0 div 2 ^ 5 + toBigInt x1 * 2 ^ (l_bits - 5) + toBigInt x2 * 2 ^ (2 * l_bits - 5)"
proof -
  define t0 where "t0 = toBigInt x0"
  define t1 where "t1 = toBigInt x1"
  define t2 where "t2 = toBigInt x2"
  define t where "t = t0 + t1 * 2 ^ 88 + t2 * 2 ^ 176"
  note b' = b [folded t0_def t1_def t2_def]
  have hi: "t div 32 = t0 div 32 + t1 * 2 ^ 83 + t2 * 2 ^ 171" and lo: "t mod 32 = t0 mod 32"
    unfolding t_def by (rule div32_limbs)+
  have tn: "0 \<le> t" unfolding t_def using b' by simp
  have tl: "t < 2 ^ 255" using r by (simp add: t_def t0_def t1_def t2_def)
  have hn: "0 \<le> t div 32" using tn by (simp add: pos_imp_zdiv_nonneg_iff)
  have hl: "t div 32 < 2 ^ 250" using tl by (intro div_less_of_less_mult) simp_all
  define b0 where "b0 = Var (bit_bigint t0 0)"
  define b1 where "b1 = Var (bit_bigint t0 1)"
  define b2 where "b2 = Var (bit_bigint t0 2)"
  define b3 where "b3 = Var (bit_bigint t0 3)"
  define b4 where "b4 = Var (bit_bigint t0 4)"
  have p': "32 \<le> p" "(2::int) ^ 88 \<le> p" "(32::int) < p" "(2::int) ^ 83 < p" "(2::int) ^ 171 < p"
    using p by simp_all
  have bools: "toBigInt b0 = 0 \<or> toBigInt b0 = 1" "toBigInt b1 = 0 \<or> toBigInt b1 = 1"
    "toBigInt b2 = 0 \<or> toBigInt b2 = 1" "toBigInt b3 = 0 \<or> toBigInt b3 = 1"
    "toBigInt b4 = 0 \<or> toBigInt b4 = 1"
    using bit_bigint_01 [of _ t0] by (simp_all add: b0_def b1_def b2_def b3_def b4_def)
  have pk: "toBigInt (packBits p [b0, b1, b2, b3, b4]) = t0 mod 32"
    using packBits5 [OF p'(1) bools] low5_bits_value [of t0]
    by (simp add: b0_def b1_def b2_def b3_def b4_def)
  have split_ok: "toBigInt (Field_add p (packBits p [b0, b1, b2, b3, b4])
          (Field_mul_number p (Var (t0 div 32)) 32)) = t0"
    using b' p' by (subst Field_lin_exact) (simp_all add: pk pos_imp_zdiv_nonneg_iff)
  define m where "m = Field_add p (Var (t0 div 32)) (Field_mul_number p x1 (2 ^ 83))"
  define H where "H = Field_add p m (Field_mul_number p x2 (2 ^ 171))"
  have n0: "0 \<le> t0 div 32" using b' by (simp add: pos_imp_zdiv_nonneg_iff)
  have lt: "t div 32 < p" using hl p by simp
  have part: "t0 div 32 + t1 * 2 ^ 83 \<le> t div 32" unfolding hi using b' by simp
  have mv: "toBigInt m = t0 div 32 + t1 * 2 ^ 83"
    unfolding m_def using b' p' n0 part lt
    by (subst Field_lin_exact) (simp_all add: t1_def)
  have hv: "toBigInt H = t div 32"
    unfolding H_def using b' p' n0 lt
    by (subst Field_lin_exact) (simp_all add: mv hi t1_def t2_def)
  define T where "T = ShiftedScalar (Bool b0, Bool b1, Bool b2, Bool b3, Bool b4) H"
  have run: "field3ToShiftedScalar p q sub s = Inr T"
    using c bools split_ok
    unfolding field3ToShiftedScalar_def sub Let_def prod.case shl_values
    by (simp add: field3ToShiftedScalar_constrain_Inr_iff T_def H_def m_def t0_def
        b0_def b1_def b2_def b3_def b4_def)
  have lv: "low5_value (low5 T) = t mod 32"
    using low5_bits_value [of t0] lo
    by (simp add: T_def low5_value_def b0_def b1_def b2_def b3_def b4_def)
  have lb: "low5_boolean (low5 T)" using bools by (simp add: T_def low5_boolean_def)
  have hT: "toBigInt (high250 T) = t div 32" using hv by (simp add: T_def)
  have sc: "scalar_of T = t" unfolding scalar_of_def lv hT by simp
  have t083: "t0 div 2 ^ 5 < 2 ^ 83"
    using b'(2) by (intro div_less_of_less_mult) simp_all
  have hx: "t div 32 = t0 div 2 ^ 5 + t1 * 2 ^ (l_bits - 5) + t2 * 2 ^ (2 * l_bits - 5)"
    using hi by (simp add: l_bits_def)
  have f1: "0 \<le> toBigInt (high250 T)" unfolding hT by (rule hn)
  have f2: "toBigInt (high250 T) < 2 ^ 250" unfolding hT by (rule hl)
  have f3: "toBigInt (high250 T)
      = t0 div 2 ^ 5 + t1 * 2 ^ (l_bits - 5) + t2 * 2 ^ (2 * l_bits - 5)"
    unfolding hT by (rule hx)
  show ?thesis
    using run lb sc f1 f2 t083 f3
    unfolding t_def t0_def t1_def t2_def by blast
qed

text \<open>
  Claim C5.  The claim, like the comments of the source (\<open>this proves that t0High < 2^83\<close>,
  \<open>proves that tHi is in [0, 2^250)\<close>), takes the invariant of the shifted scalar to
  follow from the asserted split of the low limb.  The split is asserted in the native
  field, where it fixes \<open>tHi0\<close> only modulo \<open>p\<close>, and \<open>tHi0\<close> is not range-checked.  For the
  variable scalar \<open>s = 2^254 + 7\<close>, whose difference \<open>t = 7\<close> has the limbs \<open>(7, 0, 0)\<close>, the
  values the prover computes give the shifted scalar of 7; the constraints also accept
  the bits of \<open>8\<close> with \<open>tHi0 = (p - 1) / 32\<close>, which is not below \<open>2^83\<close>, and return a
  shifted scalar with boolean bits and a high part below \<open>2^250\<close> that stands for \<open>7 + p\<close>.
  A split that is wrong in the field (the bits of 7 with \<open>tHi0 = 1\<close>) is rejected.
\<close>

theorem field3ToShiftedScalar_split_wraps:
  "reduced_sub (Var 7, Var 0, Var (2 ^ 78)) (Field3_from (bigint_shl 1 254)) pallas_q
     = (Var 7, Var 0, Var 0)
   \<and> map_sum id scalar_of
         (field3ToShiftedScalar pallas_p pallas_q reduced_sub (Var 7, Var 0, Var (2 ^ 78)))
       = Inr 7
   \<and> field3ToShiftedScalar_constrain pallas_p (Var 7, Var 0, Var 0)
         (Var 0, Var 0, Var 0, Var 1, Var 0)
         (Var 904625697166532776746648320380374280105095515060673772373583648885936488448)
       = Inr (ShiftedScalar (Bool (Var 0), Bool (Var 0), Bool (Var 0), Bool (Var 1), Bool (Var 0))
                (Var 904625697166532776746648320380374280105095515060673772373583648885936488448))
   \<and> scalar_of (ShiftedScalar (Bool (Var 0), Bool (Var 0), Bool (Var 0), Bool (Var 1), Bool (Var 0))
                (Var 904625697166532776746648320380374280105095515060673772373583648885936488448))
       = 7 + pallas_p
   \<and> 904625697166532776746648320380374280105095515060673772373583648885936488448 < (2::int) ^ 250
   \<and> (2::int) ^ 83 \<le> 904625697166532776746648320380374280105095515060673772373583648885936488448
   \<and> field3ToShiftedScalar_constrain pallas_p (Var 7, Var 0, Var 0)
         (Var 1, Var 1, Var 1, Var 0, Var 0) (Var 1)
       = Inl ConstraintUnsatisfied"
  by code_simp

text \<open>
  The spec gives the subtraction only as a three-limb result that stands for the
  difference modulo \<open>q\<close>; it does not bound that result by \<open>q\<close>.  For \<open>s = 2^257\<close> and a
  subtraction that returns the limbs \<open>(0, 0, 7 * 2^78)\<close> of the difference \<open>s - 2^254\<close> as it
  is, the run on the values the prover computes returns a high part of \<open>7 * 2^249\<close>, which
  is not below \<open>2^250\<close>.
\<close>

lemma field3ToShiftedScalar_unreduced_difference:
  "Field3_toBigint (Var 0, Var 0, Var (2 ^ 81)) = 2 ^ 257"
  "(Field3_toBigint (Var 0, Var 0, Var (7 * 2 ^ 78)) - (2 ^ 257 - 2 ^ 254)) mod pallas_q = 0"
  "field3ToShiftedScalar pallas_p pallas_q (\<lambda>x y f. (Var 0, Var 0, Var (7 * 2 ^ 78)))
       (Var 0, Var 0, Var (2 ^ 81))
     = Inr (ShiftedScalar (Bool (Var 0), Bool (Var 0), Bool (Var 0), Bool (Var 0), Bool (Var 0))
              (Var (7 * 2 ^ 249)))"
  by code_simp+

section \<open>Complete addition\<close>

lemma inverse_loop_sound:
  "inverse_loop a b x u = Some r \<Longrightarrow> (x * a0 - b) mod p = 0 \<Longrightarrow> (u * a0 - a) mod p = 0
     \<Longrightarrow> (r * a0 - 1) mod p = 0"
proof (induction a b x u rule: inverse_loop.induct)
  case (1 a b x u)
  show ?case
  proof (cases "a \<le> 0")
    case True
    with "1.prems" show ?thesis
      by (simp add: inverse_loop.simps [of a b x u] split: if_splits)
  next
    case False
    have "(x - u * (b div a)) * a0 - b mod a
        = (x * a0 - b) - (b div a) * (u * a0 - a) - ((b div a) * a + b mod a - b)"
      by (simp add: algebra_simps)
    also have "\<dots> = (x * a0 - b) - (b div a) * (u * a0 - a)"
      by simp
    finally have "((x - u * (b div a)) * a0 - b mod a) mod p
        = ((x * a0 - b) - (b div a) * (u * a0 - a)) mod p" by simp
    also have "\<dots> = 0"
      using "1.prems"(2,3) by (simp add: mod_eq_0_iff_dvd)
    finally have step: "((x - u * (b div a)) * a0 - b mod a) mod p = 0" .
    from "1.prems"(1) False have "inverse_loop (b mod a) a u (x - u * (b div a)) = Some r"
      by (simp add: inverse_loop.simps [of a b x u])
    from "1.IH" [OF False this "1.prems"(3) step] show ?thesis .
  qed
qed

lemma inverse_loop_complete:
  "0 \<le> a \<Longrightarrow> 0 \<le> b \<Longrightarrow> gcd a b = 1 \<Longrightarrow> \<exists>r. inverse_loop a b x u = Some r"
proof (induction a b x u rule: inverse_loop.induct)
  case (1 a b x u)
  show ?case
  proof (cases "a \<le> 0")
    case True
    with "1.prems" have "a = 0" by simp
    with "1.prems" have "b = 1" by simp
    with True show ?thesis by (simp add: inverse_loop.simps [of a 1 x u])
  next
    case False
    then have a: "0 < a" by simp
    have g: "gcd (b mod a) a = 1"
      using "1.prems"(3) by (metis gcd.commute gcd_red_int)
    have "0 \<le> b mod a" using a by simp
    from "1.IH" [OF False this _ g] a
    show ?thesis by (simp add: inverse_loop.simps [of a b x u])
  qed
qed

lemma cong_mod: "(p::int) dvd a mod p - a"
proof -
  have "a mod p - a = p * (- (a div p))"
    using mult_div_mod_eq [of p a] by (simp add: algebra_simps)
  then show ?thesis by (simp only: dvd_triv_left)
qed

lemma pos_mod_nonzero: "0 < (p::int) \<Longrightarrow> a mod p \<noteq> 0 \<Longrightarrow> 0 < a mod p"
  using pos_mod_sign [of p a] by linarith

lemma prime_modulus_no_divisor:
  assumes "prime_modulus p" "2 \<le> d" "d < p"
  shows "\<not> d dvd p"
  using assms by (simp add: prime_modulus_def list_all_iff)

lemma prime_modulus_coprime:
  assumes p: "prime_modulus p" and a: "a mod p \<noteq> 0"
  shows "gcd (a mod p) p = 1"
proof -
  have p0: "0 < p" using p by (simp add: prime_modulus_def)
  define g where "g = gcd (a mod p) p"
  have g1: "g dvd p" and g2: "g dvd a mod p" by (simp_all add: g_def)
  have am: "0 < a mod p" "a mod p < p" using a p0 by (simp_all add: pos_mod_nonzero)
  have "g \<le> a mod p" using am(1) g2 by (rule zdvd_imp_le [rotated])
  then have "g < p" using am(2) by simp
  moreover have "0 \<le> g" by (simp add: g_def)
  moreover have "g \<noteq> 0" using am(1) by (simp add: g_def)
  ultimately have "g = 1 \<or> (2 \<le> g \<and> g < p)" by linarith
  then show ?thesis
    using prime_modulus_no_divisor [OF p, of g] g1 by (auto simp add: g_def)
qed

lemma Fp_inverse_Some:
  assumes p: "prime_modulus p" and a: "a mod p \<noteq> 0"
  obtains r where "Fp_inverse p a = Some r" "0 \<le> r" "r < p" "p dvd a * r - 1"
proof -
  have p0: "0 < p" using p by (simp add: prime_modulus_def)
  have n: "0 \<le> a mod p" "0 \<le> p" using p0 by simp_all
  obtain r0 where r0: "inverse_loop (a mod p) p 0 1 = Some r0"
    using inverse_loop_complete [OF n prime_modulus_coprime [OF p a], of 0 1] by blast
  have "(r0 * (a mod p) - 1) mod p = 0"
    by (rule inverse_loop_sound [OF r0]) simp_all
  then have d0: "p dvd r0 * (a mod p) - 1" by (simp add: mod_eq_0_iff_dvd)
  have 1: "p dvd r0 * (a mod p - a)" using cong_mod [of p a] by (rule dvd_mult)
  have 2: "p dvd a * (r0 mod p - r0)" using cong_mod [of p r0] by (rule dvd_mult)
  have "a * (r0 mod p) - 1 = a * (r0 mod p - r0) - r0 * (a mod p - a) + (r0 * (a mod p) - 1)"
    by (simp add: algebra_simps)
  then have d: "p dvd a * (r0 mod p) - 1" using 1 2 d0 by (simp only: dvd_add dvd_diff)
  have e: "Fp_inverse p a = Some (r0 mod p)"
    using a by (simp add: Fp_inverse_def r0)
  have "0 \<le> r0 mod p" "r0 mod p < p" using p0 by simp_all
  then show ?thesis using that [OF e _ _ d] by blast
qed

lemma Fp_inverse_None: "a mod p = 0 \<Longrightarrow> Fp_inverse p a = None"
  by (simp add: Fp_inverse_def)

text \<open>A prime modulus has no zero divisors.\<close>

lemma prime_modulus_no_zero_divisors:
  assumes p: "prime_modulus p" and ab: "p dvd a * b"
  shows "p dvd a \<or> p dvd b"
proof (cases "a mod p = 0")
  case True
  then show ?thesis by (simp add: mod_eq_0_iff_dvd)
next
  case False
  obtain r where r: "p dvd a * r - 1" using Fp_inverse_Some [OF p False] by blast
  have "b = r * (a * b) - b * (a * r - 1)" by (simp add: algebra_simps)
  moreover have "p dvd r * (a * b) - b * (a * r - 1)"
    using ab r by (simp only: dvd_diff dvd_mult)
  ultimately show ?thesis by simp
qed

lemma small_multiple_zero:
  fixes c p :: int
  assumes "p dvd c" "\<bar>c\<bar> < p"
  shows "c = 0"
proof (rule ccontr)
  assume "c \<noteq> 0"
  then have "\<bar>p\<bar> \<le> \<bar>c\<bar>" using assms(1) by (rule dvd_imp_le_int)
  then show False using assms(2) by linarith
qed

lemma diff_mod_nonzero:
  fixes a b p :: int
  assumes "0 \<le> a" "a < p" "0 \<le> b" "b < p" "a \<noteq> b"
  shows "(a - b) mod p \<noteq> 0"
proof
  assume "(a - b) mod p = 0"
  then have d: "p dvd a - b" by (simp add: mod_eq_0_iff_dvd)
  have "\<bar>a - b\<bar> < p" using assms by linarith
  then have "a - b = 0" using d by (intro small_multiple_zero)
  then show False using assms by simp
qed

lemma prime_modulus_double_nonzero:
  assumes p: "prime_modulus p" and y: "0 < y" "y < p"
  shows "(2 * y) mod p \<noteq> 0"
proof
  assume "(2 * y) mod p = 0"
  then have "p dvd 2 * y" by (simp add: mod_eq_0_iff_dvd)
  then have "p dvd 2 \<or> p dvd y" by (rule prime_modulus_no_zero_divisors [OF p])
  moreover have "2 < p" using p by (simp add: prime_modulus_def)
  ultimately show False using y by (auto dest: zdvd_imp_le)
qed

lemma mod_unique_dvd:
  fixes x p X :: int
  assumes "0 \<le> x" "x < p" "p dvd x - X"
  shows "X mod p = x"
proof -
  have "x mod p = X mod p" using assms(3) by (simp add: mod_eq_dvd_iff)
  then show ?thesis using assms(1,2) by (simp add: mod_pos_pos_trivial)
qed

lemma on_curve_Affine:
  "on_curve p b (Affine x y) \<longleftrightarrow>
     0 \<le> x \<and> x < p \<and> 0 \<le> y \<and> y < p \<and> p dvd y ^ 2 - (x ^ 3 + b)"
  by (simp add: on_curve_def mod_eq_0_iff_dvd)

lemma ecAdd_algebra_dvd:
  "ecAdd_algebra p (x1, y1) (x2, y2) (x3, y3) isInf same_x s inf_z x21_inv \<longleftrightarrow>
     p dvd (x2 - x1) * same_x \<and>
     p dvd x21_inv * (x2 - x1) - (1 - same_x) \<and>
     p dvd same_x * (2 * s * y1 - 3 * x1 ^ 2) + (1 - same_x) * ((x2 - x1) * s - (y2 - y1)) \<and>
     p dvd x1 + x2 + x3 - s ^ 2 \<and>
     p dvd s * (x1 - x3) - (y1 + y3) \<and>
     p dvd (y2 - y1) * (same_x - isInf) \<and>
     p dvd (y2 - y1) * inf_z - isInf"
  by (simp add: ecAdd_algebra_def mod_eq_0_iff_dvd)

text \<open>Two points of the curve with the same abscissa are equal or opposite.\<close>

lemma same_x_opposite:
  assumes p: "prime_modulus p"
    and g: "on_curve p b (Affine x y1)" and h: "on_curve p b (Affine x y2)" and ne: "y1 \<noteq> y2"
  shows "y2 = (- y1) mod p"
proof -
  have d1: "p dvd y1 ^ 2 - (x ^ 3 + b)" and d2: "p dvd y2 ^ 2 - (x ^ 3 + b)"
    using g h by (simp_all add: on_curve_Affine)
  have "p dvd (y2 - y1) * (y2 + y1)" using d1 d2 by algebra
  then have "p dvd y2 - y1 \<or> p dvd y2 + y1" by (rule prime_modulus_no_zero_divisors [OF p])
  moreover have "\<not> p dvd y2 - y1"
    using diff_mod_nonzero [of y2 p y1] g h ne by (simp add: on_curve_Affine mod_eq_0_iff_dvd)
  ultimately have "p dvd y2 - (- y1)" by simp
  moreover have "0 \<le> y2" "y2 < p" using h by (simp_all add: on_curve_Affine)
  ultimately show ?thesis by (simp add: mod_unique_dvd)
qed

lemma opposite_differs:
  assumes p: "prime_modulus p" and y: "0 < y" "y < p"
  shows "(- y) mod p \<noteq> y"
proof
  assume e: "(- y) mod p = y"
  have "p dvd (- y) mod p - (- y)" by (rule cong_mod)
  then have "p dvd 2 * y" unfolding e by simp
  then show False using prime_modulus_double_nonzero [OF p y] by (simp add: mod_eq_0_iff_dvd)
qed

lemma bool_value_dvd:
  fixes i p :: int
  assumes "2 < p" "i = 0 \<or> i = 1"
  shows "p dvd i \<longleftrightarrow> i = 0" and "p dvd 1 - i \<longleftrightarrow> i = 1"
  using assms by (auto dest: zdvd_imp_le)

lemma third_point:
  fixes p :: int
  assumes ds: "p dvd s - sr"
    and a4: "p dvd x1 + x2 + x3 - s ^ 2" and a5: "p dvd s * (x1 - x3) - (y1 + y3)"
    and r: "0 \<le> x3" "x3 < p" "0 \<le> y3" "y3 < p"
  shows "(sr ^ 2 - x1 - x2) mod p = x3" and "(sr * (x1 - x3) - y1) mod p = y3"
proof -
  have "p dvd x3 - (sr ^ 2 - x1 - x2)" using ds a4 by algebra
  then show "(sr ^ 2 - x1 - x2) mod p = x3" using r by (intro mod_unique_dvd)
  have "p dvd y3 - (sr * (x1 - x3) - y1)" using ds a5 by algebra
  then show "(sr * (x1 - x3) - y1) mod p = y3" using r by (intro mod_unique_dvd)
qed

lemma Fp_div_Some:
  assumes p: "prime_modulus p" and a: "a mod p \<noteq> 0"
  obtains sr where "Fp_div p n a = Some sr" "0 \<le> sr" "sr < p" "p dvd a * sr - n"
proof -
  have p0: "0 < p" using p by (simp add: prime_modulus_def)
  obtain r where r: "Fp_inverse p a = Some r" "p dvd a * r - 1"
    using Fp_inverse_Some [OF p a] by blast
  have e: "Fp_div p n a = Some ((n * r) mod p)" by (simp add: Fp_div_def r)
  have "p dvd (n * r) mod p - n * r" by (rule cong_mod)
  then have d: "p dvd a * ((n * r) mod p) - n" using r(2) by algebra
  have "0 \<le> (n * r) mod p" "(n * r) mod p < p" using p0 by simp_all
  then show ?thesis using that [OF e _ _ d] by blast
qed

lemma slope_unique:
  assumes p: "prime_modulus p" and a: "a mod p \<noteq> 0"
    and 1: "p dvd a * s - n" and 2: "p dvd a * sr - n"
  shows "p dvd s - sr"
proof -
  have "p dvd a * (s - sr)" using 1 2 by algebra
  then have "p dvd a \<or> p dvd s - sr" by (rule prime_modulus_no_zero_divisors [OF p])
  then show ?thesis using a by (simp add: mod_eq_0_iff_dvd)
qed

lemma gate_steps:
  fixes p :: int
  shows "p dvd (y2 - y1) * (same_x - isInf) \<Longrightarrow> p dvd (y2 - y1) * inf_z - isInf
           \<Longrightarrow> p dvd same_x \<Longrightarrow> p dvd isInf * isInf"
    and "p dvd same_x * (2 * s * y1 - 3 * x1 ^ 2) + (1 - same_x) * ((x2 - x1) * s - (y2 - y1))
           \<Longrightarrow> p dvd same_x \<Longrightarrow> p dvd (x2 - x1) * s - (y2 - y1)"
    and "p dvd same_x * (2 * s * y1 - 3 * x1 ^ 2) + (1 - same_x) * ((x2 - x1) * s - (y2 - y1))
           \<Longrightarrow> p dvd 1 - same_x \<Longrightarrow> p dvd (2 * y1) * s - 3 * x1 ^ 2"
    and "p dvd x21_inv * (x2 - x1) - (1 - same_x) \<Longrightarrow> x1 = x2 \<Longrightarrow> p dvd 1 - same_x"
    and "p dvd same_x - isInf \<Longrightarrow> p dvd 1 - same_x \<Longrightarrow> p dvd 1 - isInf"
    and "p dvd (y2 - y1) * inf_z - isInf \<Longrightarrow> y1 = y2 \<Longrightarrow> p dvd isInf"
  by algebra+

text \<open>
  Values that satisfy the algebra of the gate, with a boolean \<open>inf\<close> and a result in the
  field, are the flag and the sum of the group law.
\<close>

lemma ecAdd_algebra_sound:
  assumes p: "prime_modulus p"
    and g: "on_curve p b (Affine x1 y1)" and h: "on_curve p b (Affine x2 y2)" and y: "y1 \<noteq> 0"
    and alg: "ecAdd_algebra p (x1, y1) (x2, y2) (x3, y3) isInf same_x s inf_z x21_inv"
    and inf: "isInf = 0 \<or> isInf = 1"
    and r: "0 \<le> x3" "x3 < p" "0 \<le> y3" "y3 < p"
  shows "isInf = 1 \<longleftrightarrow> Affine x2 y2 = ec_neg p (Affine x1 y1)"
    and "isInf = 0 \<Longrightarrow> ec_add p (Affine x1 y1) (Affine x2 y2) = Affine x3 y3"
proof -
  note a = alg [unfolded ecAdd_algebra_dvd]
  have a1: "p dvd (x2 - x1) * same_x"
    and a2: "p dvd x21_inv * (x2 - x1) - (1 - same_x)"
    and a3: "p dvd same_x * (2 * s * y1 - 3 * x1 ^ 2)
               + (1 - same_x) * ((x2 - x1) * s - (y2 - y1))"
    and a4: "p dvd x1 + x2 + x3 - s ^ 2"
    and a5: "p dvd s * (x1 - x3) - (y1 + y3)"
    and a6: "p dvd (y2 - y1) * (same_x - isInf)"
    and a7: "p dvd (y2 - y1) * inf_z - isInf"
    using a by blast+
  have p2: "2 < p" using p by (simp add: prime_modulus_def)
  note bv = bool_value_dvd [OF p2 inf]
  have gr: "0 \<le> x1" "x1 < p" "0 \<le> y1" "y1 < p" using g by (simp_all add: on_curve_Affine)
  have hr: "0 \<le> x2" "x2 < p" "0 \<le> y2" "y2 < p" using h by (simp_all add: on_curve_Affine)
  have y1: "0 < y1" using gr y by simp
  have both: "(isInf = 1 \<longleftrightarrow> Affine x2 y2 = ec_neg p (Affine x1 y1)) \<and>
      (isInf = 0 \<longrightarrow> ec_add p (Affine x1 y1) (Affine x2 y2) = Affine x3 y3)"
  proof (cases "x1 = x2")
    case False
    have nz: "(x2 - x1) mod p \<noteq> 0" using diff_mod_nonzero [of x2 p x1] gr hr False by simp
    then have nd: "\<not> p dvd x2 - x1" by (simp add: mod_eq_0_iff_dvd)
    have sx: "p dvd same_x"
      using prime_modulus_no_zero_divisors [OF p a1] nd by blast
    have "p dvd isInf * isInf" using a6 a7 sx by (rule gate_steps(1))
    then have "p dvd isInf" using prime_modulus_no_zero_divisors [OF p] by blast
    then have i0: "isInf = 0" by (simp add: bv)
    obtain sr where sr: "Fp_div p (y2 - y1) (x2 - x1) = Some sr" "p dvd (x2 - x1) * sr - (y2 - y1)"
      using Fp_div_Some [OF p nz] by blast
    have c3: "p dvd (x2 - x1) * s - (y2 - y1)" using a3 sx by (rule gate_steps(2))
    have ds: "p dvd s - sr" by (rule slope_unique [OF p nz c3 sr(2)])
    note tp = third_point [OF ds a4 a5 r]
    have "ec_add p (Affine x1 y1) (Affine x2 y2) = Affine x3 y3"
      using False by (simp add: ec_add_def ec_slope_def sr(1) tp Let_def)
    then show ?thesis using False i0 by (simp add: ec_neg_def)
  next
    case True
    have sx: "p dvd 1 - same_x" using a2 True by (rule gate_steps(4))
    show ?thesis
    proof (cases "y1 = y2")
      case False
      have opp: "y2 = (- y1) mod p"
        using same_x_opposite [OF p g h [folded True] False] .
      have nz: "(y2 - y1) mod p \<noteq> 0" using diff_mod_nonzero [of y2 p y1] gr hr False by simp
      then have nd: "\<not> p dvd y2 - y1" by (simp add: mod_eq_0_iff_dvd)
      have "p dvd same_x - isInf"
        using prime_modulus_no_zero_divisors [OF p a6] nd by blast
      then have "p dvd 1 - isInf" using sx by (rule gate_steps(5))
      then have i1: "isInf = 1" by (simp add: bv)
      show ?thesis using i1 True opp by (simp add: ec_neg_def)
    next
      case same: True
      have "p dvd isInf" using a7 same by (rule gate_steps(6))
      then have i0: "isInf = 0" by (simp add: bv)
      have no: "(- y1) mod p \<noteq> y1" using opposite_differs [OF p y1 gr(4)] .
      have nz: "(2 * y1) mod p \<noteq> 0" using prime_modulus_double_nonzero [OF p y1 gr(4)] .
      obtain sr where sr: "Fp_div p (3 * x1 ^ 2) (2 * y1) = Some sr"
        "p dvd (2 * y1) * sr - 3 * x1 ^ 2"
        using Fp_div_Some [OF p nz] by blast
      have c3: "p dvd (2 * y1) * s - 3 * x1 ^ 2" using a3 sx by (rule gate_steps(3))
      have ds: "p dvd s - sr" by (rule slope_unique [OF p nz c3 sr(2)])
      note tp = third_point [OF ds a4 a5 r]
      have "ec_add p (Affine x1 y1) (Affine x1 y1) = Affine x3 y3"
        using y tp [folded True] by (simp add: ec_add_def ec_slope_def sr(1) Let_def)
      then show ?thesis using True same i0 no by (simp add: ec_neg_def)
    qed
  qed
  show "isInf = 1 \<longleftrightarrow> Affine x2 y2 = ec_neg p (Affine x1 y1)" using both by blast
  show "isInf = 0 \<Longrightarrow> ec_add p (Affine x1 y1) (Affine x2 y2) = Affine x3 y3" using both by blast
qed

lemma line_point:
  fixes p s u v w X Y :: int
  assumes "0 < p" and X: "X = (s ^ 2 - u - v) mod p" and Y: "Y = (s * (u - X) - w) mod p"
  shows "p dvd u + v + X - s ^ 2" "p dvd s * (u - X) - (w + Y)"
    "0 \<le> X" "X < p" "0 \<le> Y" "Y < p"
proof -
  have "p dvd X - (s ^ 2 - u - v)" unfolding X by (rule cong_mod)
  then show "p dvd u + v + X - s ^ 2" by algebra
  have "p dvd Y - (s * (u - X) - w)" unfolding Y [symmetric] unfolding Y by (rule cong_mod)
  then show "p dvd s * (u - X) - (w + Y)" by algebra
  show "0 \<le> X" "X < p" using assms(1) by (simp_all add: X)
  show "0 \<le> Y" "Y < p" using assms(1) by (simp_all add: Y)
qed

lemma algebra_chord:
  fixes p :: int
  assumes "p dvd (x2 - x1) * r - 1" "p dvd s - (y2 - y1) * r"
    "p dvd x1 + x2 + x3 - s ^ 2" "p dvd s * (x1 - x3) - (y1 + y3)"
  shows "ecAdd_algebra p (x1, y1) (x2, y2) (x3, y3) 0 0 s 0 r"
proof -
  have "p dvd r * (x2 - x1) - 1" using assms(1) by algebra
  moreover have "p dvd (x2 - x1) * s - (y2 - y1)" using assms(1,2) by algebra
  ultimately show ?thesis using assms(3,4) by (simp add: ecAdd_algebra_dvd)
qed

lemma algebra_tangent:
  fixes p :: int
  assumes "p dvd (2 * y1) * s - 3 * x1 ^ 2"
    "p dvd x1 + x1 + x3 - s ^ 2" "p dvd s * (x1 - x3) - (y1 + y3)"
  shows "ecAdd_algebra p (x1, y1) (x1, y1) (x3, y3) 0 1 s 0 0"
proof -
  have "p dvd 2 * s * y1 - 3 * x1 ^ 2" using assms(1) by algebra
  then show ?thesis using assms(2,3) by (simp add: ecAdd_algebra_dvd)
qed

lemma algebra_opposite:
  fixes p :: int
  assumes "p dvd (y2 - y1) * z - 1" "p dvd (2 * y1) * s - 3 * x1 ^ 2"
    "p dvd x1 + x1 + x3 - s ^ 2" "p dvd s * (x1 - x3) - (y1 + y3)"
  shows "ecAdd_algebra p (x1, y1) (x1, y2) (x3, y3) 1 1 s z 0"
proof -
  have "p dvd 2 * s * y1 - 3 * x1 ^ 2" using assms(2) by algebra
  then show ?thesis using assms(1,3,4) by (simp add: ecAdd_algebra_dvd)
qed

text \<open>
  The values the prover computes satisfy the algebra of the gate, for two points of the
  curve of which the first has a non-zero ordinate.
\<close>

lemma add_witnesses_algebra:
  assumes p: "prime_modulus p"
    and g: "on_curve p b (point_of g)" and h: "on_curve p b (point_of h)"
    and y: "toBigInt (py g) \<noteq> 0"
  obtains sameX isInf infZ x21Inv s x3 y3 where
    "add_witnesses p g h = (sameX, isInf, infZ, x21Inv, s, x3, y3)"
    "isInf = 0 \<or> isInf = 1" "0 \<le> x3" "x3 < p" "0 \<le> y3" "y3 < p"
    "ecAdd_algebra p (toBigInt (px g), toBigInt (py g)) (toBigInt (px h), toBigInt (py h))
       (x3, y3) isInf sameX s infZ x21Inv"
proof -
  define x1 where "x1 = toBigInt (px g)"
  define y1 where "y1 = toBigInt (py g)"
  define x2 where "x2 = toBigInt (px h)"
  define y2 where "y2 = toBigInt (py h)"
  note d = x1_def y1_def x2_def y2_def
  have p0: "0 < p" using p by (simp add: prime_modulus_def)
  have gr: "0 \<le> x1" "x1 < p" "0 \<le> y1" "y1 < p"
    using g by (simp_all add: point_of_def on_curve_Affine d)
  have hr: "0 \<le> x2" "x2 < p" "0 \<le> y2" "y2 < p"
    using h by (simp_all add: point_of_def on_curve_Affine d)
  have y1: "0 < y1" using gr y by (simp add: d)
  have nz2: "(2 * y1) mod p \<noteq> 0" using prime_modulus_double_nonzero [OF p y1 gr(4)] .
  obtain sd where sd: "Fp_div p (3 * x1 ^ 2) (2 * y1) = Some sd" "p dvd (2 * y1) * sd - 3 * x1 ^ 2"
    using Fp_div_Some [OF p nz2] by blast
  show ?thesis
  proof (cases "x1 = x2")
    case False
    have nz: "(x2 - x1) mod p \<noteq> 0" using diff_mod_nonzero [of x2 p x1] gr hr False by simp
    obtain r where r: "Fp_inverse p (x2 - x1) = Some r" "p dvd (x2 - x1) * r - 1"
      using Fp_inverse_Some [OF p nz] by blast
    define s where "s = ((y2 - y1) * r) mod p"
    define x3 where "x3 = (s ^ 2 - x1 - x2) mod p"
    define y3 where "y3 = (s * (x1 - x3) - y1) mod p"
    note lp = line_point [OF p0 x3_def y3_def]
    have w: "add_witnesses p g h = (0, 0, 0, r, s, x3, y3)"
      using False r(1)
      by (simp add: add_witnesses_def Let_def orZero_def Fp_mul_def Fp_mod_def
          d [symmetric] s_def x3_def y3_def)
    have "p dvd s - (y2 - y1) * r" unfolding s_def by (rule cong_mod)
    then have "ecAdd_algebra p (x1, y1) (x2, y2) (x3, y3) 0 0 s 0 r"
      using r(2) lp(1,2) by (intro algebra_chord)
    then show ?thesis
      using that [OF w _ lp(3-6)] by (simp add: d)
  next
    case True
    define x3 where "x3 = (sd ^ 2 - x1 - x1) mod p"
    define y3 where "y3 = (sd * (x1 - x3) - y1) mod p"
    note lp = line_point [OF p0 x3_def y3_def]
    have inv0: "Fp_inverse p (x2 - x1) = None" using True by (simp add: Fp_inverse_None)
    show ?thesis
    proof (cases "y1 = y2")
      case same: True
      have w: "add_witnesses p g h = (1, 0, 0, 0, sd, x3, y3)"
        using True same sd(1)
        by (simp add: add_witnesses_def Let_def orZero_def Fp_mod_def Fp_inverse_None
            d [symmetric] x3_def y3_def)
      have "ecAdd_algebra p (x1, y1) (x1, y1) (x3, y3) 0 1 sd 0 0"
        using sd(2) lp(1,2) by (intro algebra_tangent)
      then show ?thesis
        using that [OF w _ lp(3-6)] True same by (simp add: d)
    next
      case False
      have nz: "(y2 - y1) mod p \<noteq> 0" using diff_mod_nonzero [of y2 p y1] gr hr False by simp
      obtain z where z: "Fp_inverse p (y2 - y1) = Some z" "p dvd (y2 - y1) * z - 1"
        using Fp_inverse_Some [OF p nz] by blast
      have w: "add_witnesses p g h = (1, 1, z, 0, sd, x3, y3)"
        using True False sd(1) z(1)
        by (simp add: add_witnesses_def Let_def orZero_def Fp_mod_def Fp_inverse_None
            d [symmetric] x3_def y3_def)
      have "ecAdd_algebra p (x1, y1) (x1, y2) (x3, y3) 1 1 sd z 0"
        using z(2) sd(2) lp(1,2) by (intro algebra_opposite)
      then show ?thesis
        using that [OF w _ lp(3-6)] True by (simp add: d)
    qed
  qed
qed

lemma no_point_of_order_two_ordinate:
  assumes c: "no_point_of_order_two p b" and g: "on_curve p b (Affine x y)"
  shows "y \<noteq> 0"
proof
  assume y0: "y = 0"
  have r: "0 \<le> x" "x < p" and d: "p dvd y ^ 2 - (x ^ 3 + b)"
    using g by (simp_all add: on_curve_Affine)
  have "p dvd - (x ^ 3 + b)" using d unfolding y0 by simp
  then have "p dvd x ^ 3 + b" by (simp only: dvd_minus_iff)
  moreover have "x \<in> set [0..p - 1]" using r by simp
  ultimately show False
    using c by (simp add: no_point_of_order_two_def list_all_iff mod_eq_0_iff_dvd del: upto.simps)
qed

lemma add_constrain_Inr_iff:
  "add_constrain ecAdd g h (sameX, isInf, infZ, x21Inv, s, x3, y3) = Inr (r, i) \<longleftrightarrow>
     (isInf = 0 \<or> isInf = 1) \<and>
     ecAdd (toBigInt (px g), toBigInt (py g)) (toBigInt (px h), toBigInt (py h))
       (x3, y3) isInf sameX s infZ x21Inv \<and>
     r = Point (Var x3) (Var y3) \<and> i = Bool (Var isInf)"
  by (auto simp add: add_constrain_def andThen_def assertBool_def seal_def split: sum.splits)

text \<open>An accepted assignment whose gate values satisfy the algebra gives the right result.\<close>

lemma add_constrain_sound:
  assumes p: "prime_modulus p" and c: "no_point_of_order_two p b"
    and g: "on_curve p b (point_of g)" and h: "on_curve p b (point_of h)"
    and run: "add_constrain ecAdd g h (sameX, isInf, infZ, x21Inv, s, x3, y3) = Inr (r, i)"
    and alg: "ecAdd_algebra p (toBigInt (px g), toBigInt (py g)) (toBigInt (px h), toBigInt (py h))
       (x3, y3) isInf sameX s infZ x21Inv"
    and f: "0 \<le> x3" "x3 < p" "0 \<le> y3" "y3 < p"
  shows "add_result_ok p g h r i"
proof -
  note a = run [unfolded add_constrain_Inr_iff]
  have y: "toBigInt (py g) \<noteq> 0"
    using no_point_of_order_two_ordinate [OF c g [unfolded point_of_def]] .
  note s = ecAdd_algebra_sound [OF p g [unfolded point_of_def] h [unfolded point_of_def] y alg _ f]
  have i: "isInf = 0 \<or> isInf = 1" using a by blast
  show ?thesis
    using a s(1) [OF i] s(2) [OF i]
    by (auto simp add: add_result_ok_def point_of_def)
qed

text \<open>
  Claim C4.  Let \<open>g\<close> and \<open>h\<close> be affine points, equal or not, of a curve \<open>y^2 = x^3 + b\<close> of
  odd order over a prime field.  Whenever \<open>add(g, h)\<close> returns, \<open>isInfinity\<close> is a boolean
  that is true exactly when \<open>h = -g\<close>, and otherwise the result is the sum \<open>g + h\<close> of the
  chord-and-tangent law, in the doubling case as in the generic one.  It does return
  when the native gate accepts every assignment that satisfies the equations of complete
  addition.  The same holds for every assignment of the seven witnesses to field values
  that the wrapper accepts, when the gate accepts only assignments satisfying those
  equations.
\<close>

theorem add_complete_addition:
  assumes p: "prime_modulus p" and c: "no_point_of_order_two p b"
    and g: "on_curve p b (point_of g)" and h: "on_curve p b (point_of h)"
  shows "(gate_complete p ecAdd \<longrightarrow> (\<exists>r i. add p ecAdd g h = Inr (r, i))) \<and>
     (\<forall>r i. add p ecAdd g h = Inr (r, i) \<longrightarrow> add_result_ok p g h r i) \<and>
     (gate_sound p ecAdd \<longrightarrow>
        (\<forall>sameX isInf infZ x21Inv s x3 y3 r i.
           0 \<le> x3 \<and> x3 < p \<and> 0 \<le> y3 \<and> y3 < p \<and>
           add_constrain ecAdd g h (sameX, isInf, infZ, x21Inv, s, x3, y3) = Inr (r, i)
           \<longrightarrow> add_result_ok p g h r i))"
proof -
  have y: "toBigInt (py g) \<noteq> 0"
    using no_point_of_order_two_ordinate [OF c g [unfolded point_of_def]] .
  obtain sameX isInf infZ x21Inv s x3 y3 where
    w: "add_witnesses p g h = (sameX, isInf, infZ, x21Inv, s, x3, y3)"
    and i: "isInf = 0 \<or> isInf = 1" and f: "0 \<le> x3" "x3 < p" "0 \<le> y3" "y3 < p"
    and alg: "ecAdd_algebra p (toBigInt (px g), toBigInt (py g))
       (toBigInt (px h), toBigInt (py h)) (x3, y3) isInf sameX s infZ x21Inv"
    using add_witnesses_algebra [OF p g h y] by blast
  have returns: "\<exists>r i. add p ecAdd g h = Inr (r, i)" if "gate_complete p ecAdd"
  proof -
    have "ecAdd (toBigInt (px g), toBigInt (py g)) (toBigInt (px h), toBigInt (py h))
       (x3, y3) isInf sameX s infZ x21Inv"
      using that alg unfolding gate_complete_def by blast
    then show ?thesis using i by (simp add: add_def w add_constrain_Inr_iff)
  qed
  have honest: "add_result_ok p g h r i" if "add p ecAdd g h = Inr (r, i)" for r i
    using that unfolding add_def w by (rule add_constrain_sound [OF p c g h _ alg f])
  have any: "add_result_ok p g h r i"
    if s: "gate_sound p ecAdd"
      and f': "0 \<le> x3'" "x3' < p" "0 \<le> y3'" "y3' < p"
      and run: "add_constrain ecAdd g h (sameX', isInf', infZ', x21Inv', s', x3', y3') = Inr (r, i)"
    for sameX' isInf' infZ' x21Inv' s' x3' y3' r i
  proof -
    have "ecAdd (toBigInt (px g), toBigInt (py g)) (toBigInt (px h), toBigInt (py h))
       (x3', y3') isInf' sameX' s' infZ' x21Inv'"
      using run unfolding add_constrain_Inr_iff by blast
    then have "ecAdd_algebra p (toBigInt (px g), toBigInt (py g))
       (toBigInt (px h), toBigInt (py h)) (x3', y3') isInf' sameX' s' infZ' x21Inv'"
      using s unfolding gate_sound_def by blast
    then show ?thesis by (rule add_constrain_sound [OF p c g h run _ f'])
  qed
  show ?thesis using returns honest any by blast
qed

theorem add_complete_addition_witness:
  "prime_modulus 7 \<and> no_point_of_order_two 7 5 \<and>
   on_curve 7 5 (point_of (Point (Var 3) (Var 2))) \<and>
   on_curve 7 5 (point_of (Point (Var 5) (Var 2))) \<and>
   gate_complete 7 (ecAdd_algebra 7) \<and>
   add 7 (ecAdd_algebra 7) (Point (Var 3) (Var 2)) (Point (Var 5) (Var 2))
     = Inr (Point (Var 6) (Var 5), Bool (Var 0)) \<and>
   add_result_ok 7 (Point (Var 3) (Var 2)) (Point (Var 5) (Var 2)) (Point (Var 6) (Var 5))
     (Bool (Var 0))"
proof -
  have p: "prime_modulus 7" by code_simp
  have c: "no_point_of_order_two 7 5" by code_simp
  have g: "on_curve 7 5 (point_of (Point (Var 3) (Var 2)))" by code_simp
  have h: "on_curve 7 5 (point_of (Point (Var 5) (Var 2)))" by code_simp
  have gc: "gate_complete 7 (ecAdd_algebra 7)" by (simp add: gate_complete_def)
  have run: "add 7 (ecAdd_algebra 7) (Point (Var 3) (Var 2)) (Point (Var 5) (Var 2))
     = Inr (Point (Var 6) (Var 5), Bool (Var 0))" by code_simp
  from add_complete_addition [OF p c g h, of "ecAdd_algebra 7"] run
  have "add_result_ok 7 (Point (Var 3) (Var 2)) (Point (Var 5) (Var 2)) (Point (Var 6) (Var 5))
     (Bool (Var 0))" by blast
  then show ?thesis using p c g h gc run by blast
qed

text \<open>The three cases of the wrapper on the curve \<open>y^2 = x^3 + 5\<close> over the field of 7 elements.\<close>

lemma add_cases_mod_7:
  "add 7 (ecAdd_algebra 7) (Point (Var 3) (Var 2)) (Point (Var 3) (Var 2))
     = Inr (Point (Var 5) (Var 2), Bool (Var 0))"
  "add 7 (ecAdd_algebra 7) (Point (Var 3) (Var 2)) (Point (Var 3) (Var 5))
     = Inr (Point (Var 5) (Var 2), Bool (Var 1))"
  "ec_add 7 (Affine 3 2) (Affine 3 2) = Affine 5 2"
  "ec_add 7 (Affine 3 2) (Affine 3 5) = Infinity"
  "ec_add 7 (Affine 3 2) (Affine 5 2) = Affine 6 5"
  by code_simp+

end
